theory Spec2Isabelle
  imports
    Complex_Main
    "HOL-Library.Product_Lexorder"
    "HOL-Library.List_Lexorder"
    "HOL-Library.Char_ord"
    "HOL-Library.Multiset"
begin

section \<open>Data model\<close>

text \<open>
  A row of the call table of \<^verbatim>\<open>02_consensus_coordinates.py\<close>: the dictionaries built by
  the loaders, with the columns \<^verbatim>\<open>tool\<close>, \<^verbatim>\<open>contig\<close>, \<^verbatim>\<open>start\<close>, \<^verbatim>\<open>end\<close>, \<^verbatim>\<open>id_raw\<close>.
  The column \<^verbatim>\<open>end\<close> is the field \<open>end'\<close>. Coordinates are Python integers, hence \<open>int\<close>.
  A data frame is the list of its rows, in row order.
\<close>

record call =
  tool :: string
  contig :: string
  start :: int
  end' :: int
  id_raw :: string

text \<open>A row of the member table: a call with the column \<^verbatim>\<open>cluster_idx\<close> added.\<close>

record member = call +
  cluster_idx :: nat

definition with_cluster :: "call \<Rightarrow> string \<Rightarrow> nat \<Rightarrow> member" where
  "with_cluster r c k =
     \<lparr>tool = tool r, contig = c, start = start r, end' = end' r, id_raw = id_raw r,
      cluster_idx = k\<rparr>"

text \<open>
  \<^verbatim>\<open>Series.unique()\<close> and \<^verbatim>\<open>groupby(..., sort=False)\<close>: the distinct values in order of
  first appearance.
\<close>

fun unique :: "'a list \<Rightarrow> 'a list" where
  "unique [] = []"
| "unique (x # xs) = x # unique (filter (\<lambda>y. y \<noteq> x) xs)"

section \<open>Clustering: \<^verbatim>\<open>cluster_by_contig\<close>\<close>

text \<open>
  The local variables of the sweep over one contig. \<^verbatim>\<open>cur_start\<close> and \<^verbatim>\<open>cur_end\<close> are
  \<^verbatim>\<open>None\<close> together or integers together, so they are one optional pair. \<^verbatim>\<open>member_rows\<close>
  is the list of the flushed sub-frames.
\<close>

record sweep_state =
  cluster_id :: nat
  cur_env :: "(int \<times> int) option"
  cur_members :: "nat list"
  member_rows :: "member list list"

text \<open>
  The quantities computed for a row \<open>(s, e)\<close> against the envelope. The two quotients
  \<^verbatim>\<open>inter/len_a\<close> and \<^verbatim>\<open>inter/len_b\<close> are floating-point divisions in the source; they are
  exact rationals here, and so is \<^verbatim>\<open>overlap_thresh\<close>.
\<close>

definition inter_len :: "int \<Rightarrow> int \<Rightarrow> int \<Rightarrow> int \<Rightarrow> int" where
  "inter_len s e cur_start cur_end = max 0 (min e cur_end - max s cur_start)"

definition min_recip :: "int \<Rightarrow> int \<Rightarrow> int \<Rightarrow> int \<Rightarrow> rat" where
  "min_recip s e cur_start cur_end =
     (let len_a = e - s; len_b = cur_end - cur_start in
      if len_a = 0 \<or> len_b = 0 then 0
      else min (of_int (inter_len s e cur_start cur_end) / of_int len_a)
               (of_int (inter_len s e cur_start cur_end) / of_int len_b))"

definition gap :: "int \<Rightarrow> int \<Rightarrow> int \<Rightarrow> int \<Rightarrow> int" where
  "gap s e cur_start cur_end =
     (if inter_len s e cur_start cur_end > 0 then 0
      else max (max (s - cur_end) (cur_start - e)) 0)"

definition merges :: "rat \<Rightarrow> int \<Rightarrow> int \<Rightarrow> int \<Rightarrow> int \<Rightarrow> int \<Rightarrow> bool" where
  "merges overlap_thresh max_dist s e cur_start cur_end \<longleftrightarrow>
     min_recip s e cur_start cur_end \<ge> overlap_thresh \<or> gap s e cur_start cur_end \<le> max_dist"

text \<open>
  \<^verbatim>\<open>flush()\<close>: the rows \<^verbatim>\<open>dfc.loc[cur_members]\<close> with \<^verbatim>\<open>cluster_idx\<close> and \<^verbatim>\<open>contig\<close> set,
  appended to \<^verbatim>\<open>member_rows\<close>. The labels in \<^verbatim>\<open>cur_members\<close> are positions of \<^verbatim>\<open>dfc\<close>
  (its index was reset).
\<close>

definition flush :: "call list \<Rightarrow> string \<Rightarrow> sweep_state \<Rightarrow> sweep_state" where
  "flush dfc c st =
     (if cur_members st \<noteq> []
      then st\<lparr>member_rows :=
                member_rows st @ [map (\<lambda>i. with_cluster (dfc ! i) c (cluster_id st)) (cur_members st)]\<rparr>
      else st)"

text \<open>The body of the loop \<^verbatim>\<open>for i, r in dfc.iterrows()\<close>.\<close>

definition sweep_step ::
  "rat \<Rightarrow> int \<Rightarrow> call list \<Rightarrow> string \<Rightarrow> nat \<times> call \<Rightarrow> sweep_state \<Rightarrow> sweep_state" where
  "sweep_step overlap_thresh max_dist dfc c ir st =
     (let i = fst ir; s = start (snd ir); e = end' (snd ir) in
      case cur_env st of
        None \<Rightarrow> st\<lparr>cluster_id := cluster_id st + 1, cur_env := Some (s, e), cur_members := [i]\<rparr>
      | Some (cur_start, cur_end) \<Rightarrow>
          if merges overlap_thresh max_dist s e cur_start cur_end
          then st\<lparr>cur_members := cur_members st @ [i],
                   cur_env := Some (min cur_start s, max cur_end e)\<rparr>
          else (flush dfc c st)
                 \<lparr>cluster_id := cluster_id st + 1, cur_env := Some (s, e), cur_members := [i]\<rparr>)"

definition init_state :: sweep_state where
  "init_state = \<lparr>cluster_id = 0, cur_env = None, cur_members = [], member_rows = []\<rparr>"

text \<open>
  One iteration of the loop over the contigs: the stable sort by \<open>(start, end)\<close>, the
  sweep, the last flush. The result is the list of the sub-frames appended for the contig,
  one per cluster.
\<close>

definition sweep :: "rat \<Rightarrow> int \<Rightarrow> string \<Rightarrow> call list \<Rightarrow> sweep_state" where
  "sweep overlap_thresh max_dist c dfc =
     fold (sweep_step overlap_thresh max_dist dfc c) (enumerate 0 dfc) init_state"

definition cluster_contig :: "rat \<Rightarrow> int \<Rightarrow> string \<Rightarrow> call list \<Rightarrow> member list list" where
  "cluster_contig overlap_thresh max_dist c rows =
     (let dfc = sort_key (\<lambda>r. (start r, end' r)) rows
      in member_rows (flush dfc c (sweep overlap_thresh max_dist c dfc)))"

text \<open>
  \<^verbatim>\<open>cluster_by_contig\<close>: the groups of \<^verbatim>\<open>calls.groupby("contig", sort=False)\<close> in order of
  first appearance, and the concatenation of all sub-frames. With no sub-frame the result
  is the empty frame.
\<close>

definition cluster_by_contig :: "call list \<Rightarrow> rat \<Rightarrow> int \<Rightarrow> member list" where
  "cluster_by_contig calls overlap_thresh max_dist =
     concat (map (\<lambda>c. concat (cluster_contig overlap_thresh max_dist c
                                 (filter (\<lambda>r. contig r = c) calls)))
                 (unique (map contig calls)))"



section \<open>Consensus: \<^verbatim>\<open>best_group\<close> and \<^verbatim>\<open>consensus_edgewise\<close>\<close>

text \<open>
  The exceptions that the modelled code can raise. A function that can raise returns
  \<open>py_error + 'a\<close>, with \<open>Inl\<close> for the exception.
\<close>

datatype py_error = KeyError | IndexError | ValueError | TypeError

fun sequence :: "('e + 'a) list \<Rightarrow> 'e + 'a list" where
  "sequence [] = Inr []"
| "sequence (x # xs) =
     (case x of
        Inl e \<Rightarrow> Inl e
      | Inr v \<Rightarrow> (case sequence xs of Inl e \<Rightarrow> Inl e | Inr vs \<Rightarrow> Inr (v # vs)))"

subsection \<open>\<^verbatim>\<open>int(np.median(x))\<close>\<close>

text \<open>
  \<^verbatim>\<open>np.median\<close> of integers is the middle element of the sorted values, or the mean
  \<open>(a + b) / 2\<close> of the two middle elements, as a float; \<^verbatim>\<open>int\<close> truncates it toward zero.
  On no values the median is \<^verbatim>\<open>nan\<close> and \<^verbatim>\<open>int\<close> raises \<^verbatim>\<open>ValueError\<close>. The float is exact
  for coordinates below \<open>2^52\<close> in size; the model computes with unbounded integers.
\<close>

definition trunc_half :: "int \<Rightarrow> int" where
  "trunc_half x = (if 0 \<le> x then x div 2 else - ((- x) div 2))"

definition int_median :: "int list \<Rightarrow> py_error + int" where
  "int_median xs =
     (let n = length xs; s = sort xs in
      if n = 0 then Inl ValueError
      else if odd n then Inr (s ! (n div 2))
      else Inr (trunc_half (s ! (n div 2 - 1) + s ! (n div 2))))"

subsection \<open>\<^verbatim>\<open>best_group\<close>\<close>

text \<open>
  The dictionary \<^verbatim>\<open>adj\<close> has the keys \<open>0, \<dots>, n - 1\<close>: it is the list of its values. A
  Python set is a list without repetition here; the order in which Python iterates over a
  set is not specified, so no result may depend on the order of these lists.
\<close>

definition add_edge :: "nat \<Rightarrow> nat \<Rightarrow> nat list list \<Rightarrow> nat list list" where
  "add_edge i j adj =
     (let adj1 = adj[i := List.insert j (adj ! i)]
      in adj1[j := List.insert i (adj1 ! j)])"

definition build_adj :: "int list \<Rightarrow> int \<Rightarrow> nat list list" where
  "build_adj values tol =
     (let n = length values in
      fold (\<lambda>i adj.
              fold (\<lambda>j adj. if \<bar>values ! i - values ! j\<bar> \<le> tol then add_edge i j adj else adj)
                   [i + 1..<n] adj)
           [0..<n] (replicate n []))"

text \<open>
  The loop \<^verbatim>\<open>while stack\<close>. The set \<^verbatim>\<open>comp\<close> is the argument \<open>cmp\<close>. The head
  of the list is the top of the stack, so the
  neighbours pushed in iteration order end up reversed on top. \<^verbatim>\<open>adj[u]\<close> raises
  \<^verbatim>\<open>KeyError\<close> for a key that is not in the dictionary.
\<close>

function dfs_loop ::
  "nat list list \<Rightarrow> nat list \<Rightarrow> nat set \<Rightarrow> nat set \<Rightarrow> py_error + (nat set \<times> nat set)" where
  "dfs_loop adj [] seen cmp = Inr (seen, cmp)"
| "dfs_loop adj (u # stack) seen cmp =
     (if u \<in> seen then dfs_loop adj stack seen cmp
      else if u < length adj
      then dfs_loop adj (rev (filter (\<lambda>v. v \<notin> insert u seen) (adj ! u)) @ stack)
             (insert u seen) (insert u cmp)
      else Inl KeyError)"
  by pat_completeness auto
termination
proof (relation "measures
    [\<lambda>(adj, stack, seen, cmp). card ((\<Union>(set ` set adj) \<union> set stack) - seen),
     \<lambda>(adj, stack, seen, cmp). length stack]")
  show "wf (measures
    [\<lambda>(adj, stack, seen, cmp). card ((\<Union>(set ` set adj) \<union> set stack) - seen),
     \<lambda>(adj :: nat list list, stack :: nat list, seen :: nat set, cmp :: nat set). length stack])"
    by simp
next
  fix adj :: "nat list list" and u :: nat and stack :: "nat list" and seen cmp :: "nat set"
  assume "u \<in> seen"
  have "card ((\<Union>(set ` set adj) \<union> set stack) - seen)
        \<le> card ((\<Union>(set ` set adj) \<union> set (u # stack)) - seen)"
    by (rule card_mono) auto
  then show "((adj, stack, seen, cmp), (adj, u # stack, seen, cmp)) \<in> measures
    [\<lambda>(adj, stack, seen, cmp). card ((\<Union>(set ` set adj) \<union> set stack) - seen),
     \<lambda>(adj, stack, seen, cmp). length stack]"
    by auto
next
  fix adj :: "nat list list" and u :: nat and stack :: "nat list" and seen cmp :: "nat set"
  assume u: "u \<notin> seen" "u < length adj"
  let ?new = "rev (filter (\<lambda>v. v \<notin> insert u seen) (adj ! u)) @ stack"
  have "adj ! u \<in> set adj" using u(2) by simp
  then have "set (adj ! u) \<subseteq> \<Union>(set ` set adj)" by blast
  then have "(\<Union>(set ` set adj) \<union> set ?new) - insert u seen
        \<subset> (\<Union>(set ` set adj) \<union> set (u # stack)) - seen"
    using u(1) by auto
  then have "card ((\<Union>(set ` set adj) \<union> set ?new) - insert u seen)
        < card ((\<Union>(set ` set adj) \<union> set (u # stack)) - seen)"
    by (intro psubset_card_mono) auto
  then show "((adj, ?new, insert u seen, insert u cmp), (adj, u # stack, seen, cmp)) \<in> measures
    [\<lambda>(adj, stack, seen, cmp). card ((\<Union>(set ` set adj) \<union> set stack) - seen),
     \<lambda>(adj, stack, seen, cmp). length stack]"
    by simp
qed

text \<open>
  The loop \<^verbatim>\<open>for i in range(n)\<close> over the start vertices: a vertex not seen yet starts
  a traversal, and its component is kept when it has at least two elements.
\<close>

fun groups_loop ::
  "nat list list \<Rightarrow> nat list \<Rightarrow> nat set \<Rightarrow> nat set list \<Rightarrow> py_error + nat set list" where
  "groups_loop adj [] seen groups = Inr groups"
| "groups_loop adj (i # rest) seen groups =
     (if i \<in> seen then groups_loop adj rest seen groups
      else case dfs_loop adj [i] seen {} of
             Inl e \<Rightarrow> Inl e
           | Inr (seen', cmp) \<Rightarrow>
               groups_loop adj rest seen' (if 2 \<le> card cmp then groups @ [cmp] else groups))"

text \<open>
  The loop \<^verbatim>\<open>for comp in groups\<close>: \<^verbatim>\<open>key = (-len(idx), width)\<close>, compared as Python
  compares tuples, and the first component with the least key is kept. The state is
  \<^verbatim>\<open>(best_key, best)\<close>, \<open>None\<close> before the first component. The components in \<^verbatim>\<open>groups\<close>
  have at least two elements, so \<^verbatim>\<open>max(vals)\<close> and \<^verbatim>\<open>min(vals)\<close> are defined.
\<close>

definition comp_key :: "int list \<Rightarrow> nat list \<Rightarrow> int \<times> int" where
  "comp_key values idx =
     (let vals = map (\<lambda>k. values ! k) idx
      in (- int (length idx), Max (set vals) - Min (set vals)))"

definition select_step ::
  "int list \<Rightarrow> nat set \<Rightarrow> ((int \<times> int) \<times> nat list) option \<Rightarrow> ((int \<times> int) \<times> nat list) option" where
  "select_step values cmp st =
     (let idx = sorted_list_of_set cmp; key = comp_key values idx in
      case st of
        None \<Rightarrow> Some (key, idx)
      | Some (best_key, best) \<Rightarrow> if key < best_key then Some (key, idx) else Some (best_key, best))"

text \<open>
  The index list \<^verbatim>\<open>best\<close>, or \<open>None\<close> when \<^verbatim>\<open>groups\<close> is empty. Were \<^verbatim>\<open>best\<close> still
  \<^verbatim>\<open>None\<close> after the loop, iterating over it would raise \<^verbatim>\<open>TypeError\<close>.
\<close>

definition best_indices :: "int list \<Rightarrow> int \<Rightarrow> py_error + nat list option" where
  "best_indices values tol =
     (case groups_loop (build_adj values tol) [0..<length values] {} [] of
        Inl e \<Rightarrow> Inl e
      | Inr groups \<Rightarrow>
          if groups = [] then Inr None
          else case fold (select_step values) groups None of
                 None \<Rightarrow> Inl TypeError
               | Some (best_key, best) \<Rightarrow> Inr (Some best))"

text \<open>\<^verbatim>\<open>[tools[k] for k in best]\<close>: an index out of range raises \<^verbatim>\<open>IndexError\<close>.\<close>

definition index_all :: "'a list \<Rightarrow> nat list \<Rightarrow> py_error + 'a list" where
  "index_all xs ks = sequence (map (\<lambda>k. if k < length xs then Inr (xs ! k) else Inl IndexError) ks)"

text \<open>The result of \<^verbatim>\<open>best_group\<close>: \<^verbatim>\<open>(None, [])\<close> or \<^verbatim>\<open>(med, used)\<close>.\<close>

definition best_group :: "int list \<Rightarrow> string list \<Rightarrow> int \<Rightarrow> py_error + (int option \<times> string list)" where
  "best_group values tools tol =
     (case best_indices values tol of
        Inl e \<Rightarrow> Inl e
      | Inr None \<Rightarrow> Inr (None, [])
      | Inr (Some best) \<Rightarrow>
          (case int_median (map (\<lambda>k. values ! k) best) of
             Inl e \<Rightarrow> Inl e
           | Inr med \<Rightarrow>
               (case index_all tools best of
                  Inl e \<Rightarrow> Inl e
                | Inr used \<Rightarrow> Inr (Some med, used))))"

subsection \<open>Strings\<close>

text \<open>
  The decimal numerals that an f-string writes for an integer, and \<^verbatim>\<open>sep.join(xs)\<close>.
  Strings are compared as Python compares them, character by character.
\<close>

definition digit_char :: "nat \<Rightarrow> char" where
  "digit_char d = ''0123456789'' ! d"

fun str_nat :: "nat \<Rightarrow> string" where
  "str_nat n =
     (if n < 10 then [digit_char n] else str_nat (n div 10) @ [digit_char (n mod 10)])"

definition str_int :: "int \<Rightarrow> string" where
  "str_int i = (if i < 0 then CHR ''-'' # str_nat (nat (- i)) else str_nat (nat i))"

fun join :: "string \<Rightarrow> string list \<Rightarrow> string" where
  "join sep [] = []"
| "join sep [x] = x"
| "join sep (x # y # ys) = x @ sep @ join sep (y # ys)"

subsection \<open>\<^verbatim>\<open>consensus_edgewise\<close>\<close>

text \<open>
  A row of \<^verbatim>\<open>rep\<close>, the frame of the representatives, with the columns \<^verbatim>\<open>contig\<close>,
  \<^verbatim>\<open>cluster_idx\<close>, \<^verbatim>\<open>tool\<close>, \<^verbatim>\<open>start\<close>, \<^verbatim>\<open>end\<close>.
\<close>

record rep =
  rep_contig :: string
  rep_cluster_idx :: nat
  rep_tool :: string
  rep_start :: int
  rep_end :: int

text \<open>
  \<^verbatim>\<open>members_df.groupby(["contig","cluster_idx","tool"], as_index=False).agg(...)\<close>: one row
  for each key that occurs, the keys in ascending order, with the truncated medians of the
  starts and of the ends of the group.
\<close>

definition representatives :: "member list \<Rightarrow> py_error + rep list" where
  "representatives members_df =
     sequence (map
       (\<lambda>(c, k, t).
          let g = filter (\<lambda>m. contig m = c \<and> cluster_idx m = k \<and> tool m = t) members_df in
          case int_median (map start g) of
            Inl e \<Rightarrow> Inl e
          | Inr s \<Rightarrow>
              (case int_median (map end' g) of
                 Inl e \<Rightarrow> Inl e
               | Inr e \<Rightarrow>
                   Inr \<lparr>rep_contig = c, rep_cluster_idx = k, rep_tool = t,
                        rep_start = s, rep_end = e\<rparr>))
       (sort (remdups (map (\<lambda>m. (contig m, cluster_idx m, tool m)) members_df))))"

text \<open>A row of the consensus table. The column \<^verbatim>\<open>contig\<close> is the field \<open>cons_contig\<close>,
  the column \<^verbatim>\<open>method\<close> the field \<open>method'\<close>.\<close>

record consensus =
  consensus_id :: string
  cons_contig :: string
  n_tools :: nat
  tools :: string
  consensus_start :: int
  consensus_end :: int
  method' :: string
  used_tools_start :: string
  used_tools_end :: string

text \<open>
  The two halves of the branch \<^verbatim>\<open>n_tools \<noteq> 1\<close>: the value, the tools used and the part
  of the method tag, for the starts and for the ends. \<^verbatim>\<open>starts.min()\<close> and \<^verbatim>\<open>ends.max()\<close> raise
  \<^verbatim>\<open>ValueError\<close> on an empty array.
\<close>

definition resolve_start ::
  "int list \<Rightarrow> string list \<Rightarrow> int \<Rightarrow> py_error + (int \<times> string list \<times> string)" where
  "resolve_start starts tls tol =
     (case best_group starts tls tol of
        Inl e \<Rightarrow> Inl e
      | Inr (None, used_s) \<Rightarrow>
          if starts = [] then Inl ValueError else Inr (Min (set starts), tls, ''start_min'')
      | Inr (Some s_group, used_s) \<Rightarrow>
          Inr (s_group, used_s, ''start_consensus_'' @ str_nat (length used_s)))"

definition resolve_end ::
  "int list \<Rightarrow> string list \<Rightarrow> int \<Rightarrow> py_error + (int \<times> string list \<times> string)" where
  "resolve_end ends tls tol =
     (case best_group ends tls tol of
        Inl e \<Rightarrow> Inl e
      | Inr (None, used_e) \<Rightarrow>
          if ends = [] then Inl ValueError else Inr (Max (set ends), tls, ''end_max'')
      | Inr (Some e_group, used_e) \<Rightarrow>
          Inr (e_group, used_e, ''end_consensus_'' @ str_nat (length used_e)))"

text \<open>
  The body of the loop over \<^verbatim>\<open>rep.groupby(["contig","cluster_idx"], sort=False)\<close>: the
  consensus row of one cluster, from the key \<open>(contig, cid)\<close> and the rows \<open>g\<close> of its
  representatives.
\<close>

definition consensus_row :: "int \<Rightarrow> string \<times> nat \<Rightarrow> rep list \<Rightarrow> py_error + consensus" where
  "consensus_row tol key g =
     (let tls = map rep_tool g; starts = map rep_start g; ends = map rep_end g in
      case (if length tls = 1
            then Inr (starts ! 0, ends ! 0, ''single_tool'', tls, tls)
            else case resolve_start starts tls tol of
                   Inl e \<Rightarrow> Inl e
                 | Inr (s_cons, used_s, start_part) \<Rightarrow>
                     (case resolve_end ends tls tol of
                        Inl e \<Rightarrow> Inl e
                      | Inr (e_cons, used_e, end_part) \<Rightarrow>
                          Inr (s_cons, e_cons, start_part @ ''+'' @ end_part, used_s, used_e)))
      of
        Inl e \<Rightarrow> Inl e
      | Inr (s_cons, e_cons, meth, used_s, used_e) \<Rightarrow>
          Inr \<lparr>consensus_id = fst key @ ''_prophage_'' @ str_int s_cons @ ''_'' @ str_int e_cons,
               cons_contig = fst key,
               n_tools = length tls,
               tools = join '','' (sort tls),
               consensus_start = s_cons,
               consensus_end = e_cons,
               method' = meth,
               used_tools_start = join '','' (sort used_s),
               used_tools_end = join '','' (sort used_e)\<rparr>)"

text \<open>
  \<^verbatim>\<open>consensus_edgewise\<close>. The groups of \<^verbatim>\<open>rep\<close> come in order of first appearance. With no
  row at all, \<^verbatim>\<open>pd.DataFrame(rows)\<close> has no column and \<^verbatim>\<open>sort_values\<close> raises \<^verbatim>\<open>KeyError\<close>;
  otherwise the rows are sorted by \<open>(contig, consensus_start)\<close>, and the sort is stable.
\<close>

definition consensus_edgewise :: "member list \<Rightarrow> int \<Rightarrow> py_error + consensus list" where
  "consensus_edgewise members_df tol =
     (case representatives members_df of
        Inl e \<Rightarrow> Inl e
      | Inr reps \<Rightarrow>
          (case sequence (map
                  (\<lambda>key. consensus_row tol key
                            (filter (\<lambda>r. (rep_contig r, rep_cluster_idx r) = key) reps))
                  (unique (map (\<lambda>r. (rep_contig r, rep_cluster_idx r)) reps))) of
             Inl e \<Rightarrow> Inl e
           | Inr rows \<Rightarrow>
               if rows = [] then Inl KeyError
               else Inr (sort_key (\<lambda>r. (cons_contig r, consensus_start r)) rows)))"


section \<open>Identifier map: \<^verbatim>\<open>create_mapping\<close>\<close>




section \<open>The pipeline of \<^verbatim>\<open>main\<close>\<close>


section \<open>Notions used to state the properties\<close>

subsection \<open>Clustering\<close>

text \<open>The call of a member row: the row without its \<^verbatim>\<open>cluster_idx\<close>.\<close>

definition call_of :: "member \<Rightarrow> call" where
  "call_of m = \<lparr>tool = tool m, contig = contig m, start = start m, end' = end' m, id_raw = id_raw m\<rparr>"

text \<open>
  The state of the sweep after the first \<open>k\<close> rows, and the cluster index given to the row
  at position \<open>j\<close> of the sorted frame: the value of \<^verbatim>\<open>cluster_id\<close> once the row is swept.
\<close>

definition state_after :: "rat \<Rightarrow> int \<Rightarrow> string \<Rightarrow> call list \<Rightarrow> nat \<Rightarrow> sweep_state" where
  "state_after thr md c dfc k = fold (sweep_step thr md dfc c) (take k (enumerate 0 dfc)) init_state"

definition cid_at :: "rat \<Rightarrow> int \<Rightarrow> string \<Rightarrow> call list \<Rightarrow> nat \<Rightarrow> nat" where
  "cid_at thr md c dfc j = cluster_id (state_after thr md c dfc (Suc j))"

text \<open>
  The invariant of the sweep after \<open>k\<close> rows: the flushed sub-frames are the clusters
  \<open>1, \<dots>, cluster_id - 1\<close>, none is empty, and with the rows of \<open>cur_members\<close> they are the
  first \<open>k\<close> rows of the sorted frame, each with its cluster index.
\<close>

definition sweep_inv :: "string \<Rightarrow> call list \<Rightarrow> (nat \<Rightarrow> nat) \<Rightarrow> nat \<Rightarrow> sweep_state \<Rightarrow> bool" where
  "sweep_inv c dfc cid k st \<longleftrightarrow>
     (k = 0 \<longrightarrow> st = init_state) \<and>
     (0 < k \<longrightarrow> cur_env st \<noteq> None \<and> cur_members st \<noteq> [] \<and> 0 < cluster_id st
         \<and> cid (k - 1) = cluster_id st) \<and>
     length (member_rows st) = cluster_id st - 1 \<and>
     (\<forall>f < length (member_rows st). member_rows st ! f \<noteq> [] \<and> (\<forall>m \<in> set (member_rows st ! f). cluster_idx m = Suc f)) \<and>
     concat (member_rows st) @ map (\<lambda>i. with_cluster (dfc ! i) c (cluster_id st)) (cur_members st)
       = map (\<lambda>j. with_cluster (dfc ! j) c (cid j)) [0..<k]"

text \<open>
  Bridging. The call at position \<open>k\<close> of the sorted frame is reached when a call swept
  before it ends at most \<open>max_dist\<close> before it starts. The calls at positions \<open>i < j\<close> are
  bridged when every call after \<open>i\<close> up to \<open>j\<close> is reached: a chain of calls, each within
  \<open>max_dist\<close> of an earlier one, leads from the cluster of \<open>i\<close> to \<open>j\<close>. The bridging call may
  be any call swept before, also one that comes before \<open>i\<close> and spans both.
\<close>

definition bridged :: "int \<Rightarrow> call list \<Rightarrow> nat \<Rightarrow> nat \<Rightarrow> bool" where
  "bridged max_dist dfc i j \<longleftrightarrow>
     (\<forall>k. i < k \<and> k \<le> j \<longrightarrow> (\<exists>l < k. start (dfc ! k) - end' (dfc ! l) \<le> max_dist))"

subsection \<open>Majority groups\<close>

text \<open>
  The adjacency relation on the indices of the values, as the claim states it; the
  connected component of an index; the components of at least two elements; and the range
  of the values of a component.
\<close>

definition near :: "int list \<Rightarrow> int \<Rightarrow> (nat \<times> nat) set" where
  "near values tol =
     {(i, j). i < length values \<and> j < length values \<and> i \<noteq> j \<and> \<bar>values ! i - values ! j\<bar> \<le> tol}"

definition component :: "int list \<Rightarrow> int \<Rightarrow> nat \<Rightarrow> nat set" where
  "component values tol i = (near values tol)\<^sup>* `` {i}"

definition majority_groups :: "int list \<Rightarrow> int \<Rightarrow> nat set set" where
  "majority_groups values tol =
     {component values tol i | i. i < length values \<and> 2 \<le> card (component values tol i)}"

definition width :: "int list \<Rightarrow> nat set \<Rightarrow> int" where
  "width values C = Max ((\<lambda>k. values ! k) ` C) - Min ((\<lambda>k. values ! k) ` C)"


text \<open>
  For the traversal: the edges of an adjacency list; the edges that do not enter a set
  \<open>S\<close>; the vertices reached from the vertices of \<open>A\<close> outside \<open>S\<close> along such edges; an
  adjacency list whose entries are keys; and the components of at least two elements in
  the order in which the loop over the start vertices finds them, each at its least element.
\<close>

definition edges :: "nat list list \<Rightarrow> (nat \<times> nat) set" where
  "edges adj = {(u, v). u < length adj \<and> v \<in> set (adj ! u)}"

definition avoiding :: "(nat \<times> nat) set \<Rightarrow> nat set \<Rightarrow> (nat \<times> nat) set" where
  "avoiding E S = {(a, b). (a, b) \<in> E \<and> b \<notin> S}"

definition reach_from :: "(nat \<times> nat) set \<Rightarrow> nat set \<Rightarrow> nat set \<Rightarrow> nat set" where
  "reach_from E S A = {v. \<exists>u \<in> A. u \<notin> S \<and> (u, v) \<in> (avoiding E S)\<^sup>*}"

definition closed_adj :: "nat list list \<Rightarrow> bool" where
  "closed_adj adj \<longleftrightarrow> (\<forall>u < length adj. \<forall>v \<in> set (adj ! u). v < length adj)"

definition component_list :: "(nat \<times> nat) set \<Rightarrow> nat list \<Rightarrow> nat set list" where
  "component_list E is =
     map (\<lambda>j. E\<^sup>* `` {j}) (filter (\<lambda>j. j \<notin> E\<^sup>* `` {..<j} \<and> 2 \<le> card (E\<^sup>* `` {j})) is)"

subsection \<open>The clusters of a member table\<close>

text \<open>
  For a member table \<open>ms\<close> and a cluster key \<open>(contig, cluster_idx)\<close>: the members of the
  cluster; its tools, distinct and in ascending order; the representative of a tool (the
  truncated medians of the starts and of the ends of its members, \<open>median_of\<close> being the
  value of \<open>int_median\<close> where it returns one); the representatives of the cluster; the keys
  of all clusters in ascending order; and the consensus row of a cluster.
\<close>

definition cluster_members :: "member list \<Rightarrow> string \<times> nat \<Rightarrow> member list" where
  "cluster_members ms key = filter (\<lambda>m. (contig m, cluster_idx m) = key) ms"

definition cluster_tools :: "member list \<Rightarrow> string \<times> nat \<Rightarrow> string list" where
  "cluster_tools ms key = sort (remdups (map tool (cluster_members ms key)))"

definition median_of :: "int list \<Rightarrow> int" where
  "median_of xs = (case int_median xs of Inr m \<Rightarrow> m | Inl e \<Rightarrow> 0)"

definition cluster_rep :: "member list \<Rightarrow> string \<times> nat \<Rightarrow> string \<Rightarrow> rep" where
  "cluster_rep ms key t =
     \<lparr>rep_contig = fst key, rep_cluster_idx = snd key, rep_tool = t,
      rep_start = median_of (map start (filter (\<lambda>m. tool m = t) (cluster_members ms key))),
      rep_end = median_of (map end' (filter (\<lambda>m. tool m = t) (cluster_members ms key)))\<rparr>"

definition cluster_reps :: "member list \<Rightarrow> string \<times> nat \<Rightarrow> rep list" where
  "cluster_reps ms key = map (cluster_rep ms key) (cluster_tools ms key)"

definition cluster_keys :: "member list \<Rightarrow> (string \<times> nat) list" where
  "cluster_keys ms = sort (remdups (map (\<lambda>m. (contig m, cluster_idx m)) ms))"

definition cluster_row :: "int \<Rightarrow> member list \<Rightarrow> string \<times> nat \<Rightarrow> py_error + consensus" where
  "cluster_row tol ms key = consensus_row tol key (cluster_reps ms key)"

definition the_row :: "int \<Rightarrow> member list \<Rightarrow> string \<times> nat \<Rightarrow> consensus" where
  "the_row tol ms key = projr (cluster_row tol ms key)"


subsection \<open>The identifier map\<close>






text \<open>Three calls on one contig, used as a concrete input.\<close>

definition ex_rows :: "call list" where
  "ex_rows =
    [\<lparr>tool = ''VIBRANT'', contig = ''ctg1'', start = 7000, end' = 7100, id_raw = ''ctg1_prophage_7000_7100''\<rparr>,
     \<lparr>tool = ''VirSorter2'', contig = ''ctg1'', start = 100, end' = 5000, id_raw = ''ctg1_prophage_100_5000''\<rparr>,
     \<lparr>tool = ''geNomad'', contig = ''ctg1'', start = 110, end' = 4995, id_raw = ''ctg1_prophage_110_4995''\<rparr>]"

section \<open>Properties of the clustering\<close>

subsection \<open>The merge rule\<close>

text \<open>
  C10. In the sweep of \<^verbatim>\<open>cluster_by_contig\<close>, when \<open>max_dist\<close> is not negative, a row whose
  intersection with the current envelope is positive has gap 0 and is merged into the
  current cluster, whatever \<open>overlap_thresh\<close> is: it is appended to \<open>cur_members\<close>, the
  envelope is extended, and nothing is flushed.
\<close>

theorem intersecting_call_is_merged:
  assumes "0 \<le> max_dist"
    and "cur_env st = Some (cur_start, cur_end)"
    and "inter_len (start r) (end' r) cur_start cur_end > 0"
  shows "gap (start r) (end' r) cur_start cur_end = 0
       \<and> merges overlap_thresh max_dist (start r) (end' r) cur_start cur_end
       \<and> sweep_step overlap_thresh max_dist dfc c (i, r) st =
           st\<lparr>cur_members := cur_members st @ [i],
              cur_env := Some (min cur_start (start r), max cur_end (end' r))\<rparr>"
  using assms by (simp add: gap_def merges_def sweep_step_def)

theorem intersecting_call_is_merged_witness:
  "(0::int) \<le> 0
   \<and> cur_env \<lparr>cluster_id = 1, cur_env = Some (100, 5000), cur_members = [0], member_rows = []\<rparr>
       = Some (100, 5000)
   \<and> inter_len 110 4995 100 5000 > 0
   \<and> sweep_step 2 0 [] ''ctg1''
        (1, \<lparr>tool = ''geNomad'', contig = ''ctg1'', start = 110, end' = 4995, id_raw = ''g''\<rparr>)
        \<lparr>cluster_id = 1, cur_env = Some (100, 5000), cur_members = [0], member_rows = []\<rparr>
      = \<lparr>cluster_id = 1, cur_env = Some (100, 5000), cur_members = [0, 1], member_rows = []\<rparr>"
proof -
  let ?st = "\<lparr>cluster_id = 1, cur_env = Some (100, 5000), cur_members = [0], member_rows = []\<rparr>"
  let ?r = "\<lparr>tool = ''geNomad'', contig = ''ctg1'', start = 110, end' = 4995, id_raw = ''g''\<rparr>"
  have h1: "(0::int) \<le> 0" by simp
  have h2: "cur_env ?st = Some (100, 5000)" by simp
  have h3: "inter_len (start ?r) (end' ?r) 100 5000 > 0" by (simp add: inter_len_def)
  from intersecting_call_is_merged [OF h1 h2 h3, of 2 "[]" "''ctg1''" 1] h3
  show ?thesis by simp
qed


subsection \<open>The sweep\<close>

lemma with_cluster_sel [simp]:
  "tool (with_cluster r c k) = tool r" "contig (with_cluster r c k) = c"
  "start (with_cluster r c k) = start r" "end' (with_cluster r c k) = end' r"
  "id_raw (with_cluster r c k) = id_raw r" "cluster_idx (with_cluster r c k) = k"
  by (simp_all add: with_cluster_def)

lemma state_after_0: "state_after thr md c dfc 0 = init_state"
  by (simp add: state_after_def)

lemma state_after_Suc:
  assumes "k < length dfc"
  shows "state_after thr md c dfc (Suc k) = sweep_step thr md dfc c (k, dfc ! k) (state_after thr md c dfc k)"
proof -
  have "take (Suc k) (enumerate 0 dfc) = take k (enumerate 0 dfc) @ [(k, dfc ! k)]"
    using assms by (simp add: take_Suc_conv_app_nth nth_enumerate_eq)
  then show ?thesis by (simp add: state_after_def)
qed

lemma state_after_all: "state_after thr md c dfc (length dfc) = sweep thr md c dfc"
  by (simp add: state_after_def sweep_def)

lemma sweep_step_cases:
  obtains (opened) "cur_env st = None"
      "sweep_step thr md dfc c (i, r) st = st\<lparr>cluster_id := cluster_id st + 1, cur_env := Some (start r, end' r), cur_members := [i]\<rparr>"
  | (merged) cs ce where "cur_env st = Some (cs, ce)" "merges thr md (start r) (end' r) cs ce"
      "sweep_step thr md dfc c (i, r) st = st\<lparr>cur_members := cur_members st @ [i], cur_env := Some (min cs (start r), max ce (end' r))\<rparr>"
  | (split) cs ce where "cur_env st = Some (cs, ce)" "\<not> merges thr md (start r) (end' r) cs ce"
      "sweep_step thr md dfc c (i, r) st = (flush dfc c st)\<lparr>cluster_id := cluster_id st + 1, cur_env := Some (start r, end' r), cur_members := [i]\<rparr>"
proof (cases "cur_env st")
  case None
  then show ?thesis using opened by (simp add: sweep_step_def)
next
  case (Some p)
  obtain cs ce where p: "p = (cs, ce)" by (cases p)
  show ?thesis
  proof (cases "merges thr md (start r) (end' r) cs ce")
    case True
    then show ?thesis using merged Some p by (simp add: sweep_step_def)
  next
    case False
    then show ?thesis using split Some p by (simp add: sweep_step_def)
  qed
qed

lemma sweep_inv_step:
  assumes inv: "sweep_inv c dfc cid k st" and k: "k < length dfc"
    and cid: "cid k = cluster_id (sweep_step thr md dfc c (k, dfc ! k) st)"
  shows "sweep_inv c dfc cid (Suc k) (sweep_step thr md dfc c (k, dfc ! k) st)"
proof (cases rule: sweep_step_cases [of st thr md dfc c k "dfc ! k"])
  case opened
  with inv have "k = 0" by (auto simp: sweep_inv_def)
  with inv opened cid show ?thesis
    by (simp add: sweep_inv_def init_state_def)
next
  case (merged cs ce)
  with inv have k0: "0 < k" by (auto simp: sweep_inv_def init_state_def)
  from merged cid have c1: "cid k = cluster_id st" by simp
  from inv k0 merged c1 show ?thesis
    by (simp add: sweep_inv_def)
next
  case (split cs ce)
  with inv have k0: "0 < k" by (auto simp: sweep_inv_def init_state_def)
  with inv have ne: "cur_members st \<noteq> []" and pos: "0 < cluster_id st" by (auto simp: sweep_inv_def)
  from split cid have c1: "cid k = Suc (cluster_id st)" by (simp add: flush_def)
  have fl: "flush dfc c st = st\<lparr>member_rows := member_rows st @ [map (\<lambda>i. with_cluster (dfc ! i) c (cluster_id st)) (cur_members st)]\<rparr>"
    using ne by (simp add: flush_def)
  from inv k0 split c1 ne pos show ?thesis
    unfolding sweep_inv_def fl
    by (auto simp: nth_append less_Suc_eq)
qed

lemma sweep_inv_state_after:
  assumes "k \<le> length dfc"
  shows "sweep_inv c dfc (cid_at thr md c dfc) k (state_after thr md c dfc k)"
  using assms
proof (induction k)
  case 0
  show ?case by (simp add: sweep_inv_def state_after_0 init_state_def)
next
  case (Suc k)
  then have k: "k < length dfc" by simp
  show ?case
    unfolding state_after_Suc [OF k]
    by (rule sweep_inv_step) (use Suc k in \<open>simp_all add: cid_at_def state_after_Suc\<close>)
qed

text \<open>The sub-frames of one contig, as the invariant describes them.\<close>
lemma cluster_frames:
  fixes dfc thr md c
  defines "fs \<equiv> member_rows (flush dfc c (sweep thr md c dfc))"
  shows "concat fs = map (\<lambda>j. with_cluster (dfc ! j) c (cid_at thr md c dfc j)) [0..<length dfc]"
    and "\<forall>f < length fs. fs ! f \<noteq> [] \<and> (\<forall>m \<in> set (fs ! f). cluster_idx m = Suc f)"
proof -
  let ?st = "sweep thr md c dfc"
  have inv: "sweep_inv c dfc (cid_at thr md c dfc) (length dfc) ?st"
    using sweep_inv_state_after [of "length dfc" dfc c thr md] by (simp add: state_after_all)
  show "concat fs = map (\<lambda>j. with_cluster (dfc ! j) c (cid_at thr md c dfc j)) [0..<length dfc]"
  proof (cases "dfc = []")
    case True
    with inv show ?thesis by (simp add: fs_def sweep_inv_def flush_def init_state_def)
  next
    case False
    with inv show ?thesis by (simp add: fs_def sweep_inv_def flush_def)
  qed
  show "\<forall>f < length fs. fs ! f \<noteq> [] \<and> (\<forall>m \<in> set (fs ! f). cluster_idx m = Suc f)"
  proof (cases "dfc = []")
    case True
    with inv show ?thesis by (simp add: fs_def sweep_inv_def flush_def init_state_def)
  next
    case False
    with inv show ?thesis by (auto simp: fs_def sweep_inv_def flush_def nth_append less_Suc_eq)
  qed
qed


lemma call_of_with_cluster [simp]: "call_of (with_cluster r c k) = r\<lparr>contig := c\<rparr>"
  by (simp add: call_of_def with_cluster_def)

lemma set_unique [simp]: "set (unique xs) = set xs"
  by (induction xs rule: unique.induct) auto

lemma distinct_unique [simp]: "distinct (unique xs)"
  by (induction xs rule: unique.induct) auto

lemma sorted_start_of_key:
  "sorted (map start (sort_key (\<lambda>r. (start r, end' r)) (rows :: call list)))"
proof -
  have "sorted (map (\<lambda>r. (start r, end' r)) (sort_key (\<lambda>r. (start r, end' r)) rows))"
    by (rule sorted_sort_key)
  then have "sorted_wrt (\<lambda>x y. (start x, end' x) \<le> (start y, end' y)) (sort_key (\<lambda>r. (start r, end' r)) rows)"
    by (simp add: sorted_map)
  then have "sorted_wrt (\<lambda>x y. start x \<le> start y) (sort_key (\<lambda>r. (start r, end' r)) rows)"
    by (rule sorted_wrt_mono_rel [rotated]) (auto simp: less_eq_prod_def)
  then show ?thesis by (simp add: sorted_map)
qed

lemma cluster_contig_rows:
  "concat (cluster_contig thr md c rows) =
     map (\<lambda>j. with_cluster (sort_key (\<lambda>r. (start r, end' r)) rows ! j) c
                 (cid_at thr md c (sort_key (\<lambda>r. (start r, end' r)) rows) j))
         [0..<length rows]"
  using cluster_frames(1) [of "sort_key (\<lambda>r. (start r, end' r)) rows" c thr md]
  by (simp add: cluster_contig_def Let_def)

lemma cluster_contig_frames:
  "f < length (cluster_contig thr md c rows) \<Longrightarrow>
     cluster_contig thr md c rows ! f \<noteq> [] \<and>
     (\<forall>m \<in> set (cluster_contig thr md c rows ! f). cluster_idx m = Suc f)"
  using cluster_frames(2) [of "sort_key (\<lambda>r. (start r, end' r)) rows" c thr md]
  by (simp add: cluster_contig_def Let_def)

lemma cluster_contig_calls:
  assumes "\<forall>r \<in> set rows. contig r = c"
  shows "map call_of (concat (cluster_contig thr md c rows)) = sort_key (\<lambda>r. (start r, end' r)) rows"
proof -
  let ?dfc = "sort_key (\<lambda>r. (start r, end' r)) rows"
  have "map call_of (concat (cluster_contig thr md c rows)) = map (\<lambda>j. (?dfc ! j)\<lparr>contig := c\<rparr>) [0..<length ?dfc]"
    by (simp add: cluster_contig_rows)
  also have "\<dots> = map (\<lambda>j. ?dfc ! j) [0..<length ?dfc]"
  proof (rule map_cong [OF refl])
    fix j assume "j \<in> set [0..<length ?dfc]"
    then have "?dfc ! j \<in> set rows" by (metis atLeastLessThan_iff nth_mem set_sort set_upt)
    with assms show "(?dfc ! j)\<lparr>contig := c\<rparr> = ?dfc ! j" by simp
  qed
  also have "\<dots> = ?dfc" by (rule map_nth)
  finally show ?thesis .
qed



lemma ex_rows_clusters:
  "cluster_contig (1 / 2) 1000 ''ctg1'' ex_rows =
    [[\<lparr>tool = ''VirSorter2'', contig = ''ctg1'', start = 100, end' = 5000,
        id_raw = ''ctg1_prophage_100_5000'', cluster_idx = 1\<rparr>,
      \<lparr>tool = ''geNomad'', contig = ''ctg1'', start = 110, end' = 4995,
        id_raw = ''ctg1_prophage_110_4995'', cluster_idx = 1\<rparr>],
     [\<lparr>tool = ''VIBRANT'', contig = ''ctg1'', start = 7000, end' = 7100,
        id_raw = ''ctg1_prophage_7000_7100'', cluster_idx = 2\<rparr>]]"
  by (simp add: ex_rows_def cluster_contig_def sweep_def sweep_step_def flush_def init_state_def
      merges_def gap_def inter_len_def min_recip_def with_cluster_def enumerate_eq_zip
      less_eq_prod_def)



subsection \<open>Order of the clusters\<close>

lemma sorted_concat_blocks:
  assumes "sorted (map h (concat xss))" "f < g" "g < length xss" "x \<in> set (xss ! f)" "y \<in> set (xss ! g)"
  shows "h x \<le> (h y :: 'b :: linorder)"
proof -
  have "xss = take g xss @ xss ! g # drop (Suc g) xss"
    using assms(3) by (simp add: id_take_nth_drop)
  then have "concat xss = concat (take g xss) @ xss ! g @ concat (drop (Suc g) xss)"
    by (metis concat.simps(2) concat_append)
  moreover have "xss ! f \<in> set (take g xss)"
    using assms(2,3) by (auto simp: in_set_conv_nth intro!: exI [of _ f])
  then have "x \<in> set (concat (take g xss))"
    using assms(4) by auto
  ultimately show ?thesis
    using assms(1,5) by (auto simp: sorted_append)
qed

lemma cluster_contig_sorted_start:
  "sorted (map start (concat (cluster_contig thr md c rows)))"
proof -
  have "map start (concat (cluster_contig thr md c rows)) =
        map start (sort_key (\<lambda>r. (start r, end' r)) rows)"
    by (rule nth_equalityI) (simp_all add: cluster_contig_rows)
  then show ?thesis by (simp add: sorted_start_of_key)
qed

text \<open>
  C5. For every contig, the clusters of \<^verbatim>\<open>cluster_by_contig\<close> are emitted in non-decreasing
  order of their least member start, and the rows of the \<open>f\<close>-th emitted sub-frame (from 0)
  carry the cluster index \<open>f + 1\<close>: the indices are 1-based and increase in emission order.
\<close>

theorem clusters_ordered_by_min_start:
  fixes rows :: "call list" and c :: string and overlap_thresh :: rat and max_dist :: int
  defines "cs \<equiv> cluster_contig overlap_thresh max_dist c rows"
  shows "(\<forall>f < length cs. \<forall>m \<in> set (cs ! f). cluster_idx m = f + 1)
       \<and> (\<forall>f g. f \<le> g \<and> g < length cs \<longrightarrow>
             Min (start ` set (cs ! f)) \<le> Min (start ` set (cs ! g)))"
proof (intro conjI allI impI)
  fix f assume "f < length cs"
  then show "\<forall>m \<in> set (cs ! f). cluster_idx m = f + 1"
    using cluster_contig_frames [of f overlap_thresh max_dist c rows] by (simp add: cs_def)
next
  fix f g assume fg: "f \<le> g \<and> g < length cs"
  show "Min (start ` set (cs ! f)) \<le> Min (start ` set (cs ! g))"
  proof (cases "f = g")
    case True
    then show ?thesis by simp
  next
    case False
    with fg have lt: "f < g" "g < length cs" by simp_all
    have nef: "cs ! f \<noteq> []" and neg: "cs ! g \<noteq> []"
      using cluster_contig_frames [of _ overlap_thresh max_dist c rows] lt by (simp_all add: cs_def)
    have srt: "sorted (map start (concat cs))"
      unfolding cs_def by (rule cluster_contig_sorted_start)
    obtain x where x: "x \<in> set (cs ! f)" using nef by (cases "cs ! f") auto
    have "Min (start ` set (cs ! f)) \<le> start x" using x by simp
    moreover have "\<forall>y \<in> set (cs ! g). start x \<le> start y"
      using sorted_concat_blocks [OF srt lt x] by blast
    then have "start x \<le> Min (start ` set (cs ! g))" using neg by simp
    ultimately show ?thesis by simp
  qed
qed

theorem clusters_ordered_by_min_start_witness:
  "cluster_idx (hd (cluster_contig (1 / 2) 1000 ''ctg1'' ex_rows ! 0)) = 1
   \<and> cluster_idx (hd (cluster_contig (1 / 2) 1000 ''ctg1'' ex_rows ! 1)) = 2
   \<and> Min (start ` set (cluster_contig (1 / 2) 1000 ''ctg1'' ex_rows ! 0))
       \<le> Min (start ` set (cluster_contig (1 / 2) 1000 ''ctg1'' ex_rows ! 1))"
proof -
  let ?cs = "cluster_contig (1 / 2) 1000 ''ctg1'' ex_rows"
  note T = clusters_ordered_by_min_start
    [where overlap_thresh = "1 / 2" and max_dist = 1000 and c = "''ctg1''" and rows = ex_rows]
  have len: "0 < length ?cs" "1 < length ?cs" by (simp_all add: ex_rows_clusters)
  have mem: "hd (?cs ! 0) \<in> set (?cs ! 0)" "hd (?cs ! 1) \<in> set (?cs ! 1)"
    by (simp_all add: ex_rows_clusters)
  from T have A: "\<forall>f < length ?cs. \<forall>m \<in> set (?cs ! f). cluster_idx m = f + 1"
    and B: "\<forall>f g. f \<le> g \<and> g < length ?cs \<longrightarrow>
             Min (start ` set (?cs ! f)) \<le> Min (start ` set (?cs ! g))" by blast+
  have a: "cluster_idx (hd (?cs ! 0)) = 1"
    using A [rule_format, of 0 "hd (?cs ! 0)"] len(1) mem(1) by simp
  have b: "cluster_idx (hd (?cs ! 1)) = 2"
    using A [rule_format, of 1 "hd (?cs ! 1)"] len(2) mem(2) by simp
  have "Min (start ` set (?cs ! 0)) \<le> Min (start ` set (?cs ! 1))"
    using B [rule_format, of 0 1] len(2) by simp
  with a b show ?thesis by blast
qed

subsection \<open>The envelope and bridging\<close>

lemma env_after:
  assumes "k < length dfc"
  shows "\<exists>cs ce. cur_env (state_after thr md c dfc (Suc k)) = Some (cs, ce)
           \<and> cs \<le> start (dfc ! k) \<and> end' (dfc ! k) \<le> ce"
  unfolding state_after_Suc [OF assms]
  by (cases rule: sweep_step_cases [of "state_after thr md c dfc k" thr md dfc c k "dfc ! k"]) auto

lemma cid_at_step:
  assumes "Suc k < length dfc"
    and "cur_env (state_after thr md c dfc (Suc k)) = Some (cs, ce)"
  shows "cid_at thr md c dfc (Suc k) =
           (if merges thr md (start (dfc ! Suc k)) (end' (dfc ! Suc k)) cs ce
            then cid_at thr md c dfc k else Suc (cid_at thr md c dfc k))"
    and "cur_env (state_after thr md c dfc (Suc (Suc k))) =
           (if merges thr md (start (dfc ! Suc k)) (end' (dfc ! Suc k)) cs ce
            then Some (min cs (start (dfc ! Suc k)), max ce (end' (dfc ! Suc k)))
            else Some (start (dfc ! Suc k), end' (dfc ! Suc k)))"
  using assms(2) unfolding cid_at_def state_after_Suc [OF assms(1)]
  by (simp_all add: sweep_step_def flush_def)

lemma cid_at_mono_Suc:
  assumes "Suc k < length dfc"
  shows "cid_at thr md c dfc k \<le> cid_at thr md c dfc (Suc k)"
proof -
  obtain cs ce where "cur_env (state_after thr md c dfc (Suc k)) = Some (cs, ce)"
    using env_after [of k dfc thr md c] assms by auto
  from cid_at_step(1) [OF assms this] show ?thesis by simp
qed

lemma cid_at_mono:
  assumes "i \<le> j" "j < length dfc"
  shows "cid_at thr md c dfc i \<le> cid_at thr md c dfc j"
  using assms
proof (induction j)
  case 0
  then show ?case by simp
next
  case (Suc j)
  show ?case
  proof (cases "i = Suc j")
    case True
    then show ?thesis by simp
  next
    case False
    with Suc have "cid_at thr md c dfc i \<le> cid_at thr md c dfc j" by simp
    also have "\<dots> \<le> cid_at thr md c dfc (Suc j)" using Suc.prems by (intro cid_at_mono_Suc)
    finally show ?thesis .
  qed
qed

text \<open>The end of the envelope is the end of a call swept so far.\<close>
lemma env_end_is_call_end:
  assumes "k < length dfc"
  shows "\<exists>cs ce. cur_env (state_after thr md c dfc (Suc k)) = Some (cs, ce)
           \<and> (\<exists>l \<le> k. ce = end' (dfc ! l))"
  using assms
proof (induction k)
  case 0
  then show ?case
    unfolding state_after_Suc [OF 0]
    by (simp add: state_after_0 sweep_step_def init_state_def)
next
  case (Suc k)
  then obtain cs ce l where env: "cur_env (state_after thr md c dfc (Suc k)) = Some (cs, ce)"
    and l: "l \<le> k" "ce = end' (dfc ! l)" by auto
  show ?case
  proof (cases "merges thr md (start (dfc ! Suc k)) (end' (dfc ! Suc k)) cs ce")
    case True
    show ?thesis
    proof (cases "ce \<le> end' (dfc ! Suc k)")
      case True
      with cid_at_step(2) [OF Suc.prems env] \<open>merges _ _ _ _ _ _\<close> show ?thesis
        by (auto simp: max_def intro!: exI [of _ "Suc k"])
    next
      case False
      with cid_at_step(2) [OF Suc.prems env] \<open>merges _ _ _ _ _ _\<close> l show ?thesis
        by (auto simp: max_def intro!: exI [of _ l])
    qed
  next
    case False
    with cid_at_step(2) [OF Suc.prems env] show ?thesis
      by (auto intro!: exI [of _ "Suc k"])
  qed
qed

text \<open>A call that no earlier call reaches opens a new cluster.\<close>
lemma unreached_opens:
  assumes k: "Suc k < length dfc" and md: "0 \<le> md" and thr: "0 < thr"
    and far: "\<forall>l < Suc k. md < start (dfc ! Suc k) - end' (dfc ! l)"
  shows "cid_at thr md c dfc (Suc k) = Suc (cid_at thr md c dfc k)"
proof -
  obtain cs ce l where env: "cur_env (state_after thr md c dfc (Suc k)) = Some (cs, ce)"
    and l: "l \<le> k" "ce = end' (dfc ! l)"
    using env_end_is_call_end [of k dfc thr md c] k by auto
  from far l have gt: "md < start (dfc ! Suc k) - ce" by simp
  with md have i0: "inter_len (start (dfc ! Suc k)) (end' (dfc ! Suc k)) cs ce = 0"
    by (simp add: inter_len_def)
  then have "min_recip (start (dfc ! Suc k)) (end' (dfc ! Suc k)) cs ce = 0"
    by (simp add: min_recip_def)
  moreover have "md < gap (start (dfc ! Suc k)) (end' (dfc ! Suc k)) cs ce"
    using gt i0 by (simp add: gap_def)
  ultimately have "\<not> merges thr md (start (dfc ! Suc k)) (end' (dfc ! Suc k)) cs ce"
    using thr by (simp add: merges_def)
  with cid_at_step(1) [OF k env] show ?thesis by simp
qed

text \<open>
  With well-formed calls sorted by start and \<open>max_dist \<ge> 0\<close>, the envelope ends at or
  after every call swept so far.\<close>
lemma env_end_covers:
  assumes srt: "sorted (map start dfc)" and wf: "\<forall>r \<in> set dfc. start r \<le> end' r"
    and md: "0 \<le> md" and k: "k < length dfc"
  shows "\<exists>cs ce. cur_env (state_after thr md c dfc (Suc k)) = Some (cs, ce)
           \<and> (\<forall>l \<le> k. end' (dfc ! l) \<le> ce)"
  using k
proof (induction k)
  case 0
  then show ?case
    unfolding state_after_Suc [OF 0]
    by (simp add: state_after_0 sweep_step_def init_state_def)
next
  case (Suc k)
  then obtain cs ce where env: "cur_env (state_after thr md c dfc (Suc k)) = Some (cs, ce)"
    and cov: "\<forall>l \<le> k. end' (dfc ! l) \<le> ce" by auto
  let ?s = "start (dfc ! Suc k)" and ?e = "end' (dfc ! Suc k)"
  have se: "?s \<le> ?e" using wf Suc.prems by simp
  have cs: "cs \<le> start (dfc ! k)"
    using env_after [of k dfc thr md c] env Suc.prems by auto
  have "start (dfc ! k) \<le> ?s"
    using srt Suc.prems by (simp add: sorted_iff_nth_mono)
  with cs se have cse: "cs \<le> ?e" by simp
  show ?case
  proof (cases "merges thr md ?s ?e cs ce")
    case True
    with cid_at_step(2) [OF Suc.prems env] cov show ?thesis
      by (auto simp: le_Suc_eq max.coboundedI1)
  next
    case False
    then have "md < gap ?s ?e cs ce" by (simp add: merges_def)
    with md cse have "ce < ?s" by (auto simp: gap_def split: if_splits)
    with se cov have "\<forall>l \<le> Suc k. end' (dfc ! l) \<le> ?e"
      by (auto simp: le_Suc_eq intro: order_trans)
    with False cid_at_step(2) [OF Suc.prems env] show ?thesis by simp
  qed
qed

lemma reached_merges:
  assumes srt: "sorted (map start dfc)" and wf: "\<forall>r \<in> set dfc. start r \<le> end' r"
    and md: "0 \<le> md" and k: "Suc k < length dfc"
    and near: "\<exists>l < Suc k. start (dfc ! Suc k) - end' (dfc ! l) \<le> md"
  shows "cid_at thr md c dfc (Suc k) = cid_at thr md c dfc k"
proof -
  from k have k': "k < length dfc" by simp
  obtain cs ce where env: "cur_env (state_after thr md c dfc (Suc k)) = Some (cs, ce)"
    and cov: "\<forall>l \<le> k. end' (dfc ! l) \<le> ce"
    using env_end_covers [OF srt wf md k', of thr c] by auto
  let ?s = "start (dfc ! Suc k)" and ?e = "end' (dfc ! Suc k)"
  have se: "?s \<le> ?e" using wf k by simp
  have cs: "cs \<le> start (dfc ! k)"
    using env_after [of k dfc thr md c] env k by auto
  have "start (dfc ! k) \<le> ?s"
    using srt k by (simp add: sorted_iff_nth_mono)
  with cs se have cse: "cs \<le> ?e" by simp
  from near cov have "?s - ce \<le> md" by (auto simp: less_Suc_eq_le intro: order_trans)
  with cse md have "gap ?s ?e cs ce \<le> md" by (simp add: gap_def)
  then have "merges thr md ?s ?e cs ce" by (simp add: merges_def)
  with cid_at_step(1) [OF k env] show ?thesis by simp
qed

lemma same_cluster_iff_bridged:
  assumes srt: "sorted (map start dfc)" and wf: "\<forall>r \<in> set dfc. start r \<le> end' r"
    and md: "0 \<le> md" and thr: "0 < thr" and ij: "i \<le> j" "j < length dfc"
  shows "cid_at thr md c dfc i = cid_at thr md c dfc j \<longleftrightarrow> bridged md dfc i j"
proof
  assume same: "cid_at thr md c dfc i = cid_at thr md c dfc j"
  show "bridged md dfc i j"
    unfolding bridged_def
  proof (intro allI impI, rule ccontr)
    fix k assume k: "i < k \<and> k \<le> j" and "\<not> (\<exists>l<k. start (dfc ! k) - end' (dfc ! l) \<le> md)"
    then have far: "\<forall>l < k. md < start (dfc ! k) - end' (dfc ! l)" by (simp add: not_le)
    from k obtain k' where k': "k = Suc k'" by (cases k) auto
    have "cid_at thr md c dfc k = Suc (cid_at thr md c dfc k')"
      unfolding k' by (rule unreached_opens) (use k k' ij md thr far in auto)
    moreover have "cid_at thr md c dfc i \<le> cid_at thr md c dfc k'"
      using k k' ij by (intro cid_at_mono) auto
    moreover have "cid_at thr md c dfc k \<le> cid_at thr md c dfc j"
      using k ij by (intro cid_at_mono) auto
    ultimately show False using same by simp
  qed
next
  assume br: "bridged md dfc i j"
  from ij br show "cid_at thr md c dfc i = cid_at thr md c dfc j"
  proof (induction j)
    case 0
    then show ?case by simp
  next
    case (Suc j)
    show ?case
    proof (cases "i = Suc j")
      case True
      then show ?thesis by simp
    next
      case False
      with Suc.prems have le: "i \<le> j" "j < length dfc" by simp_all
      from Suc.prems(3) have "bridged md dfc i j" by (simp add: bridged_def)
      with Suc.IH le have "cid_at thr md c dfc i = cid_at thr md c dfc j" by simp
      moreover have "cid_at thr md c dfc (Suc j) = cid_at thr md c dfc j"
        by (rule reached_merges [OF srt wf md]) (use Suc.prems le in \<open>auto simp: bridged_def\<close>)
      ultimately show ?thesis by simp
    qed
  qed
qed







section \<open>Properties of \<^verbatim>\<open>best_group\<close>\<close>

subsection \<open>The traversal\<close>

lemma avoiding_mono: "S \<subseteq> T \<Longrightarrow> avoiding E T \<subseteq> avoiding E S"
  by (auto simp: avoiding_def)

lemma avoiding_rtrancl_mono:
  "S \<subseteq> T \<Longrightarrow> (a, b) \<in> (avoiding E T)\<^sup>* \<Longrightarrow> (a, b) \<in> (avoiding E S)\<^sup>*"
  using rtrancl_mono [OF avoiding_mono] by blast

text \<open>A path that avoids S either avoids u as well, or its end is reached from u.\<close>
lemma path_avoids_or_passes:
  assumes "(w, v) \<in> (avoiding E S)\<^sup>*"
  shows "(w, v) \<in> (avoiding E (insert u S))\<^sup>* \<or> (u, v) \<in> (avoiding E S)\<^sup>*"
  using assms
proof (induction rule: rtrancl_induct)
  case base
  show ?case by simp
next
  case (step y z)
  from step.IH show ?case
  proof
    assume "(u, y) \<in> (avoiding E S)\<^sup>*"
    with step.hyps(2) show ?thesis by (auto intro: rtrancl_into_rtrancl)
  next
    assume wy: "(w, y) \<in> (avoiding E (insert u S))\<^sup>*"
    show ?thesis
    proof (cases "z = u")
      case True
      then show ?thesis by simp
    next
      case False
      with step.hyps(2) have "(y, z) \<in> avoiding E (insert u S)" by (simp add: avoiding_def)
      with wy show ?thesis by (auto intro: rtrancl_into_rtrancl)
    qed
  qed
qed

text \<open>A path from u that avoids S stays at u or leaves it by an edge to a vertex outside
  S and u, and avoids u from there.\<close>
lemma path_from_start:
  assumes "(u, v) \<in> (avoiding E S)\<^sup>*"
  shows "v = u \<or> (\<exists>s. (u, s) \<in> E \<and> s \<notin> insert u S \<and> (s, v) \<in> (avoiding E (insert u S))\<^sup>*)"
  using assms
proof (induction rule: rtrancl_induct)
  case base
  show ?case by simp
next
  case (step y z)
  show ?case
  proof (cases "z = u")
    case True
    then show ?thesis by simp
  next
    case False
    with step.hyps(2) have yz: "(y, z) \<in> avoiding E (insert u S)" "(y, z) \<in> E" "z \<notin> S"
      by (simp_all add: avoiding_def)
    from step.IH show ?thesis
    proof
      assume "y = u"
      with yz False show ?thesis by auto
    next
      assume "\<exists>s. (u, s) \<in> E \<and> s \<notin> insert u S \<and> (s, y) \<in> (avoiding E (insert u S))\<^sup>*"
      then obtain s where "(u, s) \<in> E" "s \<notin> insert u S" "(s, y) \<in> (avoiding E (insert u S))\<^sup>*"
        by blast
      with yz(1) show ?thesis by (blast intro: rtrancl_into_rtrancl)
    qed
  qed
qed

lemma reach_from_seen_top:
  assumes "u \<in> S"
  shows "reach_from E S (insert u A) = reach_from E S A"
  using assms by (auto simp: reach_from_def)

lemma reach_from_push:
  assumes u: "u \<notin> S" and N: "N = {s. (u, s) \<in> E \<and> s \<notin> insert u S}"
  shows "reach_from E S (insert u A) = insert u (reach_from E (insert u S) (N \<union> A))"
proof (intro set_eqI iffI)
  fix v assume "v \<in> reach_from E S (insert u A)"
  then obtain w where w: "w = u \<or> w \<in> A" "w \<notin> S" "(w, v) \<in> (avoiding E S)\<^sup>*"
    by (auto simp: reach_from_def)
  from path_avoids_or_passes [OF w(3), of u]
  show "v \<in> insert u (reach_from E (insert u S) (N \<union> A))"
  proof
    assume through: "(u, v) \<in> (avoiding E S)\<^sup>*"
    from path_from_start [OF this] show ?thesis
      by (auto simp: reach_from_def N)
  next
    assume av: "(w, v) \<in> (avoiding E (insert u S))\<^sup>*"
    show ?thesis
    proof (cases "w = u")
      case True
      from av have "(u, v) \<in> (avoiding E S)\<^sup>*"
        unfolding True by (rule avoiding_rtrancl_mono [rotated]) auto
      from path_from_start [OF this] show ?thesis
        by (auto simp: reach_from_def N)
    next
      case False
      with w av show ?thesis by (auto simp: reach_from_def)
    qed
  qed
next
  fix v assume v: "v \<in> insert u (reach_from E (insert u S) (N \<union> A))"
  show "v \<in> reach_from E S (insert u A)"
  proof (cases "v = u")
    case True
    with u show ?thesis by (auto simp: reach_from_def)
  next
    case False
    with v obtain s where s: "s \<in> N \<or> s \<in> A" "s \<notin> insert u S"
      "(s, v) \<in> (avoiding E (insert u S))\<^sup>*"
      by (auto simp: reach_from_def)
    have sv: "(s, v) \<in> (avoiding E S)\<^sup>*"
      using s(3) by (rule avoiding_rtrancl_mono [rotated]) auto
    from s(1) show ?thesis
    proof
      assume "s \<in> A"
      with s(2) sv show ?thesis by (auto simp: reach_from_def)
    next
      assume "s \<in> N"
      then have "(u, s) \<in> avoiding E S" by (auto simp: N avoiding_def)
      with sv have "(u, v) \<in> (avoiding E S)\<^sup>*" by (auto intro: converse_rtrancl_into_rtrancl)
      with u show ?thesis by (auto simp: reach_from_def)
    qed
  qed
qed

lemma dfs_loop_result:
  assumes "closed_adj adj" "\<forall>u \<in> set stack. u < length adj"
  shows "dfs_loop adj stack seen cmp =
           Inr (seen \<union> reach_from (edges adj) seen (set stack),
                cmp \<union> reach_from (edges adj) seen (set stack))"
  using assms
proof (induction adj stack seen cmp rule: dfs_loop.induct)
  case (1 adj seen cmp)
  show ?case by (simp add: reach_from_def)
next
  case (2 adj u stack seen cmp)
  show ?case
  proof (cases "u \<in> seen")
    case True
    with 2 show ?thesis by (simp add: reach_from_seen_top)
  next
    case False
    from "2.prems" have ul: "u < length adj" by simp
    let ?new = "rev (filter (\<lambda>v. v \<notin> insert u seen) (adj ! u)) @ stack"
    let ?N = "{s. (u, s) \<in> edges adj \<and> s \<notin> insert u seen}"
    have setnew: "set ?new = ?N \<union> set stack"
      using ul by (auto simp: edges_def)
    have "\<forall>v \<in> set ?new. v < length adj"
      using "2.prems" ul by (auto simp: closed_adj_def)
    with "2.IH"(2) [OF False ul "2.prems"(1)]
    have "dfs_loop adj ?new (insert u seen) (insert u cmp) =
           Inr (insert u seen \<union> reach_from (edges adj) (insert u seen) (set ?new),
                insert u cmp \<union> reach_from (edges adj) (insert u seen) (set ?new))"
      by simp
    moreover have "reach_from (edges adj) seen (set (u # stack)) =
        insert u (reach_from (edges adj) (insert u seen) (set ?new))"
      unfolding setnew using reach_from_push [OF False refl, of "edges adj" "set stack"] by simp
    ultimately show ?thesis using False ul by simp
  qed
qed

subsection \<open>The loop over the start vertices\<close>

lemma no_path_into_closed:
  assumes "(i, v) \<in> E\<^sup>*" and "\<forall>x. (i, x) \<in> E\<^sup>* \<longrightarrow> x \<notin> S"
  shows "(i, v) \<in> (avoiding E S)\<^sup>*"
  using assms(1)
proof (induction rule: rtrancl_induct)
  case base
  show ?case by simp
next
  case (step y z)
  then have "(i, z) \<in> E\<^sup>*" by auto
  with assms(2) have "z \<notin> S" by blast
  with step.hyps(2) have "(y, z) \<in> avoiding E S" by (simp add: avoiding_def)
  with step.IH show ?case by (rule rtrancl_into_rtrancl)
qed

lemma reach_from_fresh:
  assumes sym: "sym E" and i: "i \<notin> E\<^sup>* `` W"
  shows "reach_from E (E\<^sup>* `` W) {i} = E\<^sup>* `` {i}"
proof -
  have sym': "sym (E\<^sup>*)" using sym by (rule sym_rtrancl)
  have out: "\<forall>x. (i, x) \<in> E\<^sup>* \<longrightarrow> x \<notin> E\<^sup>* `` W"
  proof (intro allI impI notI)
    fix x assume ix: "(i, x) \<in> E\<^sup>*" and "x \<in> E\<^sup>* `` W"
    then obtain w where w: "w \<in> W" "(w, x) \<in> E\<^sup>*" by blast
    from ix sym' have "(x, i) \<in> E\<^sup>*" by (auto dest: symD)
    with w(2) have "(w, i) \<in> E\<^sup>*" by (rule rtrancl_trans)
    with w(1) i show False by blast
  qed
  show ?thesis
  proof (intro set_eqI iffI)
    fix v assume "v \<in> reach_from E (E\<^sup>* `` W) {i}"
    then have "(i, v) \<in> (avoiding E (E\<^sup>* `` W))\<^sup>*" by (simp add: reach_from_def)
    then have "(i, v) \<in> E\<^sup>*"
      using rtrancl_mono [of "avoiding E (E\<^sup>* `` W)" E] by (auto simp: avoiding_def)
    then show "v \<in> E\<^sup>* `` {i}" by blast
  next
    fix v assume "v \<in> E\<^sup>* `` {i}"
    then have "(i, v) \<in> E\<^sup>*" by blast
    from no_path_into_closed [OF this out] i show "v \<in> reach_from E (E\<^sup>* `` W) {i}"
      by (simp add: reach_from_def)
  qed
qed

lemma Image_lessThan_Suc: "R `` {..<Suc i} = R `` {..<i} \<union> R `` {i}"
  by (auto simp: less_Suc_eq)

lemma component_absorbed:
  assumes "i \<in> E\<^sup>* `` W"
  shows "E\<^sup>* `` {i} \<subseteq> E\<^sup>* `` W"
  using assms by (auto intro: rtrancl_trans)

lemma groups_loop_result:
  assumes cl: "closed_adj adj" and sym: "sym (edges adj)"
    and "i \<le> length adj"
  shows "groups_loop adj [i..<length adj] ((edges adj)\<^sup>* `` {..<i}) groups =
           Inr (groups @ component_list (edges adj) [i..<length adj])"
  using assms(3)
proof (induction "length adj - i" arbitrary: i groups)
  case 0
  then show ?case by (simp add: component_list_def)
next
  case (Suc k)
  let ?E = "edges adj"
  from Suc.hyps(2) have i: "i < length adj" by simp
  then have upt: "[i..<length adj] = i # [Suc i..<length adj]" by (simp add: upt_rec)
  have k: "k = length adj - Suc i" using Suc.hyps(2) by simp
  show ?case
  proof (cases "i \<in> ?E\<^sup>* `` {..<i}")
    case True
    then have "?E\<^sup>* `` {..<Suc i} = ?E\<^sup>* `` {..<i}"
      using component_absorbed [OF True] by (auto simp: Image_lessThan_Suc)
    with Suc.hyps(1) [OF k, of groups] i True show ?thesis
      unfolding upt by (simp add: component_list_def)
  next
    case False
    have dfs: "dfs_loop adj [i] (?E\<^sup>* `` {..<i}) {} =
        Inr (?E\<^sup>* `` {..<i} \<union> ?E\<^sup>* `` {i}, ?E\<^sup>* `` {i})"
      using dfs_loop_result [OF cl, of "[i]" "?E\<^sup>* `` {..<i}" "{}"] i
        reach_from_fresh [OF sym False]
      by simp
    let ?groups' = "if 2 \<le> card (?E\<^sup>* `` {i}) then groups @ [?E\<^sup>* `` {i}] else groups"
    have "groups_loop adj [i..<length adj] (?E\<^sup>* `` {..<i}) groups =
          groups_loop adj [Suc i..<length adj] (?E\<^sup>* `` {..<Suc i}) ?groups'"
      unfolding upt using False dfs by (simp add: Image_lessThan_Suc)
    also have "\<dots> = Inr (?groups' @ component_list ?E [Suc i..<length adj])"
      using Suc.hyps(1) [OF k, of ?groups'] i by simp
    also have "?groups' @ component_list ?E [Suc i..<length adj] =
          groups @ component_list ?E [i..<length adj]"
      unfolding upt using False by (simp add: component_list_def)
    finally show ?thesis .
  qed
qed

lemma groups_loop_all:
  assumes "closed_adj adj" "sym (edges adj)"
  shows "groups_loop adj [0..<length adj] {} [] = Inr (component_list (edges adj) [0..<length adj])"
  using groups_loop_result [OF assms, of 0 "[]"] by simp

subsection \<open>The adjacency dictionary\<close>

lemma add_edge_props:
  assumes "i < length adj" "j < length adj"
  shows "length (add_edge i j adj) = length adj"
    and "u < length adj \<Longrightarrow> set (add_edge i j adj ! u) =
           set (adj ! u) \<union> (if u = i then {j} else {}) \<union> (if u = j then {i} else {})"
  using assms by (auto simp: add_edge_def Let_def nth_list_update)

lemma inner_fold_props:
  fixes P :: "nat \<Rightarrow> bool"
  assumes "i < length adj" "\<forall>j \<in> set js. j < length adj"
  defines "res \<equiv> fold (\<lambda>j adj. if P j then add_edge i j adj else adj) js adj"
  shows "length res = length adj"
    and "u < length adj \<Longrightarrow> set (res ! u) =
           set (adj ! u) \<union> {v. u = i \<and> v \<in> set js \<and> P v} \<union> {v. v = i \<and> u \<in> set js \<and> P u}"
proof -
  have "length (fold (\<lambda>j adj. if P j then add_edge i j adj else adj) js adj) = length adj \<and>
     (\<forall>u < length adj. set (fold (\<lambda>j adj. if P j then add_edge i j adj else adj) js adj ! u) =
           set (adj ! u) \<union> {v. u = i \<and> v \<in> set js \<and> P v} \<union> {v. v = i \<and> u \<in> set js \<and> P u})"
    using assms(1,2)
  proof (induction js arbitrary: adj)
    case Nil
    show ?case by simp
  next
    case (Cons j js)
    let ?adj' = "if P j then add_edge i j adj else adj"
    have len: "length ?adj' = length adj" using Cons.prems by (simp add: add_edge_props)
    have IH: "length (fold (\<lambda>j adj. if P j then add_edge i j adj else adj) js ?adj') = length ?adj' \<and>
     (\<forall>u < length ?adj'. set (fold (\<lambda>j adj. if P j then add_edge i j adj else adj) js ?adj' ! u) =
           set (?adj' ! u) \<union> {v. u = i \<and> v \<in> set js \<and> P v} \<union> {v. v = i \<and> u \<in> set js \<and> P u})"
      by (rule Cons.IH) (use Cons.prems len in auto)
    have step: "\<forall>u < length adj. set (?adj' ! u) =
        set (adj ! u) \<union> {v. u = i \<and> v = j \<and> P v} \<union> {v. v = i \<and> u = j \<and> P u}"
      using Cons.prems by (auto simp: add_edge_props)
    show ?case
      using IH step len by (simp only: fold_Cons comp_def) (auto simp del: fold_simps)
  qed
  then show "length res = length adj"
    and "u < length adj \<Longrightarrow> set (res ! u) =
           set (adj ! u) \<union> {v. u = i \<and> v \<in> set js \<and> P v} \<union> {v. v = i \<and> u \<in> set js \<and> P u}"
    by (simp_all add: res_def)
qed

lemma outer_fold_props:
  fixes P :: "nat \<Rightarrow> nat \<Rightarrow> bool" and n :: nat
  assumes "length adj = n" "\<forall>i \<in> set is. i < n"
  defines "res \<equiv> fold (\<lambda>i adj. fold (\<lambda>j adj. if P i j then add_edge i j adj else adj) [i + 1..<n] adj) is adj"
  shows "length res = n \<and>
     (\<forall>u < n. set (res ! u) = set (adj ! u)
         \<union> {v. u \<in> set is \<and> u < v \<and> v < n \<and> P u v} \<union> {v. v \<in> set is \<and> v < u \<and> P v u})"
  unfolding res_def using assms(1,2)
proof (induction "is" arbitrary: adj)
  case Nil
  then show ?case by simp
next
  case (Cons i "is")
  let ?adj' = "fold (\<lambda>j adj. if P i j then add_edge i j adj else adj) [i + 1..<n] adj"
  have i: "i < length adj" using Cons.prems by simp
  have js: "\<forall>j \<in> set [i + 1..<n]. j < length adj" using Cons.prems by simp
  have len: "length ?adj' = n"
    using inner_fold_props(1) [OF i js, of "P i"] Cons.prems by simp
  have step: "\<forall>u < n. set (?adj' ! u) =
      set (adj ! u) \<union> {v. u = i \<and> i < v \<and> v < n \<and> P i v} \<union> {v. v = i \<and> i < u \<and> P i u}"
    using inner_fold_props(2) [OF i js, of _ "P i"] Cons.prems by auto
  have IH: "length (fold (\<lambda>i adj. fold (\<lambda>j adj. if P i j then add_edge i j adj else adj) [i + 1..<n] adj) is ?adj') = n \<and>
     (\<forall>u < n. set (fold (\<lambda>i adj. fold (\<lambda>j adj. if P i j then add_edge i j adj else adj) [i + 1..<n] adj) is ?adj' ! u) = set (?adj' ! u)
         \<union> {v. u \<in> set is \<and> u < v \<and> v < n \<and> P u v} \<union> {v. v \<in> set is \<and> v < u \<and> P v u})"
    by (rule Cons.IH) (use Cons.prems len in auto)
  show ?case
    using IH step by (simp only: fold_Cons comp_def) (auto simp del: fold_simps)
qed

lemma build_adj_props:
  "length (build_adj values tol) = length values"
  "u < length values \<Longrightarrow> set (build_adj values tol ! u) =
      {v. v < length values \<and> v \<noteq> u \<and> \<bar>values ! u - values ! v\<bar> \<le> tol}"
proof -
  let ?n = "length values"
  let ?P = "\<lambda>i j. \<bar>values ! i - values ! j\<bar> \<le> tol"
  have sym: "?P i j \<longleftrightarrow> ?P j i" for i j by (simp add: abs_minus_commute)
  from outer_fold_props [of "replicate ?n []" ?n "[0..<?n]" ?P]
  have *: "length (build_adj values tol) = ?n \<and>
     (\<forall>u < ?n. set (build_adj values tol ! u) =
         {v. u < v \<and> v < ?n \<and> ?P u v} \<union> {v. v < ?n \<and> v < u \<and> ?P v u})"
    by (simp add: build_adj_def Let_def)
  then show "length (build_adj values tol) = length values" by simp
  assume u: "u < length values"
  with * have "set (build_adj values tol ! u) =
      {v. u < v \<and> v < ?n \<and> ?P u v} \<union> {v. v < ?n \<and> v < u \<and> ?P v u}"
    by simp
  also have "\<dots> = {v. v < ?n \<and> v \<noteq> u \<and> ?P u v}"
    using u sym by auto
  finally show "set (build_adj values tol ! u) = {v. v < ?n \<and> v \<noteq> u \<and> ?P u v}" .
qed

lemma edges_build_adj: "edges (build_adj values tol) = near values tol"
  by (auto simp: edges_def near_def build_adj_props)

lemma closed_build_adj: "closed_adj (build_adj values tol)"
  by (auto simp: closed_adj_def build_adj_props)

lemma sym_near: "sym (near values tol)"
  by (auto simp: sym_def near_def abs_minus_commute)

lemma groups_of_values:
  "groups_loop (build_adj values tol) [0..<length values] {} [] =
     Inr (component_list (near values tol) [0..<length values])"
  using groups_loop_all [OF closed_build_adj, of "values" tol]
  by (simp add: edges_build_adj sym_near build_adj_props)

subsection \<open>Components\<close>

lemma near_target: "(a, b) \<in> (near values tol)\<^sup>* \<Longrightarrow> b = a \<or> b < length values"
  by (induction rule: rtrancl_induct) (auto simp: near_def)

lemma component_bounded: "i < length values \<Longrightarrow> component values tol i \<subseteq> {..<length values}"
  using near_target [of i _ "values" tol] by (auto simp: component_def)

lemma component_finite: "i < length values \<Longrightarrow> finite (component values tol i)"
  using component_bounded [of i "values" tol] finite_subset by blast

lemma component_self: "i \<in> component values tol i"
  by (simp add: component_def)

lemma component_eq:
  assumes "j \<in> component values tol i"
  shows "component values tol j = component values tol i"
proof -
  have s: "sym ((near values tol)\<^sup>*)" using sym_near by (rule sym_rtrancl)
  from assms have ij: "(i, j) \<in> (near values tol)\<^sup>*" by (simp add: component_def)
  with s have ji: "(j, i) \<in> (near values tol)\<^sup>*" by (auto dest: symD)
  show ?thesis
    unfolding component_def using ij ji by (auto intro: rtrancl_trans)
qed

lemma component_list_set:
  "set (component_list (near values tol) [0..<length values]) = majority_groups values tol"
proof (intro set_eqI iffI)
  fix C assume "C \<in> set (component_list (near values tol) [0..<length values])"
  then show "C \<in> majority_groups values tol"
    by (auto simp: component_list_def majority_groups_def component_def)
next
  fix C assume "C \<in> majority_groups values tol"
  then obtain i where i: "i < length values" "C = component values tol i" "2 \<le> card C"
    by (auto simp: majority_groups_def)
  have fin: "finite C" using i component_finite by simp
  have ne: "C \<noteq> {}" using i component_self by auto
  define j where "j = Min C"
  have jC: "j \<in> C" unfolding j_def using fin ne by (rule Min_in)
  have jn: "j < length values" using jC i component_bounded by blast
  have Cj: "C = component values tol j" using component_eq jC i by simp
  have "j \<notin> (near values tol)\<^sup>* `` {..<j}"
  proof
    assume "j \<in> (near values tol)\<^sup>* `` {..<j}"
    then obtain w where w: "w < j" "(w, j) \<in> (near values tol)\<^sup>*" by auto
    then have "j \<in> component values tol w" by (simp add: component_def)
    then have "component values tol j = component values tol w" by (rule component_eq)
    then have "w \<in> C" using Cj component_self by simp
    then have "j \<le> w" unfolding j_def using fin by simp
    with w(1) show False by simp
  qed
  with jn i(3) Cj show "C \<in> set (component_list (near values tol) [0..<length values])"
    by (auto simp: component_list_def component_def intro!: image_eqI [of _ _ j])
qed


subsection \<open>The selection of the best group\<close>

lemma select_fold:
  assumes "st = Some (k0, i0)"
  shows "\<exists>k idx. fold (select_step values) gs st = Some (k, idx) \<and> k \<le> k0
      \<and> ((k, idx) = (k0, i0) \<or>
          (\<exists>C \<in> set gs. idx = sorted_list_of_set C \<and> k = comp_key values idx))
      \<and> (\<forall>D \<in> set gs. k \<le> comp_key values (sorted_list_of_set D))"
  using assms
proof (induction gs arbitrary: st k0 i0)
  case Nil
  then show ?case by simp
next
  case (Cons g gs)
  let ?idx = "sorted_list_of_set g"
  let ?key = "comp_key values ?idx"
  show ?case
  proof (cases "?key < k0")
    case True
    then have st': "select_step values g st = Some (?key, ?idx)"
      using Cons.prems by (simp add: select_step_def Let_def)
    from Cons.IH [OF st'] obtain k idx where
      r: "fold (select_step values) gs (select_step values g st) = Some (k, idx)" "k \<le> ?key"
         "(k, idx) = (?key, ?idx) \<or> (\<exists>C \<in> set gs. idx = sorted_list_of_set C \<and> k = comp_key values idx)"
         "\<forall>D \<in> set gs. k \<le> comp_key values (sorted_list_of_set D)"
      by blast
    from r(2) True have "k \<le> k0" by simp
    moreover from r(3) have "\<exists>C \<in> set (g # gs). idx = sorted_list_of_set C \<and> k = comp_key values idx"
      by auto
    moreover from r(2,4) have "\<forall>D \<in> set (g # gs). k \<le> comp_key values (sorted_list_of_set D)"
      by auto
    ultimately show ?thesis using r(1) by auto
  next
    case False
    then have st': "select_step values g st = Some (k0, i0)"
      using Cons.prems by (simp add: select_step_def Let_def)
    from Cons.IH [OF st'] obtain k idx where
      r: "fold (select_step values) gs (select_step values g st) = Some (k, idx)" "k \<le> k0"
         "(k, idx) = (k0, i0) \<or> (\<exists>C \<in> set gs. idx = sorted_list_of_set C \<and> k = comp_key values idx)"
         "\<forall>D \<in> set gs. k \<le> comp_key values (sorted_list_of_set D)"
      by blast
    from r(2) False have "k \<le> ?key" by simp
    with r(4) have "\<forall>D \<in> set (g # gs). k \<le> comp_key values (sorted_list_of_set D)"
      by auto
    moreover from r(3) have "(k, idx) = (k0, i0) \<or>
        (\<exists>C \<in> set (g # gs). idx = sorted_list_of_set C \<and> k = comp_key values idx)"
      by auto
    ultimately show ?thesis using r(1,2) by auto
  qed
qed

lemma select_best:
  assumes "gs \<noteq> []"
  shows "\<exists>C \<in> set gs. fold (select_step values) gs None
            = Some (comp_key values (sorted_list_of_set C), sorted_list_of_set C)
      \<and> (\<forall>D \<in> set gs. comp_key values (sorted_list_of_set C) \<le> comp_key values (sorted_list_of_set D))"
proof -
  from assms obtain g gs' where gs: "gs = g # gs'" by (cases gs) auto
  let ?idx = "sorted_list_of_set g"
  have st: "select_step values g None = Some (comp_key values ?idx, ?idx)"
    by (simp add: select_step_def Let_def)
  from select_fold [OF st, where gs = gs'] obtain k idx where
    r: "fold (select_step values) gs' (select_step values g None) = Some (k, idx)"
       "k \<le> comp_key values ?idx"
       "(k, idx) = (comp_key values ?idx, ?idx) \<or>
          (\<exists>C \<in> set gs'. idx = sorted_list_of_set C \<and> k = comp_key values idx)"
       "\<forall>D \<in> set gs'. k \<le> comp_key values (sorted_list_of_set D)"
    by blast
  from r(3) obtain C where C: "C \<in> set gs" "idx = sorted_list_of_set C" "k = comp_key values idx"
    unfolding gs by auto
  moreover from r(2,4) have "\<forall>D \<in> set gs. k \<le> comp_key values (sorted_list_of_set D)"
    unfolding gs by auto
  ultimately show ?thesis using r(1) unfolding gs by auto
qed

lemma comp_key_width:
  assumes "finite C"
  shows "comp_key values (sorted_list_of_set C) = (- int (card C), width values C)"
  using assms by (simp add: comp_key_def width_def Let_def)

lemma key_le_iff:
  "(- int a, w) \<le> (- int b, w') \<longleftrightarrow> b < a \<or> (b = a \<and> w \<le> w')"
  by (auto simp: less_eq_prod_def)

lemma best_indices_result:
  "(majority_groups values tol = {} \<longrightarrow> best_indices values tol = Inr None)
   \<and> (majority_groups values tol \<noteq> {} \<longrightarrow>
        (\<exists>C \<in> majority_groups values tol.
           best_indices values tol = Inr (Some (sorted_list_of_set C))
           \<and> (\<forall>D \<in> majority_groups values tol.
                 card D < card C \<or> (card D = card C \<and> width values C \<le> width values D))))"
proof (intro conjI impI)
  let ?gs = "component_list (near values tol) [0..<length values]"
  assume "majority_groups values tol = {}"
  then have "?gs = []" using component_list_set [of "values" tol] by simp
  then show "best_indices values tol = Inr None"
    by (simp add: best_indices_def groups_of_values)
next
  let ?gs = "component_list (near values tol) [0..<length values]"
  assume "majority_groups values tol \<noteq> {}"
  then have ne: "?gs \<noteq> []" using component_list_set [of "values" tol] by auto
  from select_best [OF ne] obtain C where
    C: "C \<in> set ?gs"
       "fold (select_step values) ?gs None = Some (comp_key values (sorted_list_of_set C), sorted_list_of_set C)"
       "\<forall>D \<in> set ?gs. comp_key values (sorted_list_of_set C) \<le> comp_key values (sorted_list_of_set D)"
    by blast
  have fin: "finite D" if "D \<in> majority_groups values tol" for D
    using that component_finite by (auto simp: majority_groups_def)
  have CM: "C \<in> majority_groups values tol" using C(1) component_list_set by blast
  have "card D < card C \<or> (card D = card C \<and> width values C \<le> width values D)"
    if D: "D \<in> majority_groups values tol" for D
  proof -
    from D have "D \<in> set ?gs" using component_list_set by blast
    with C(3) have "comp_key values (sorted_list_of_set C) \<le> comp_key values (sorted_list_of_set D)"
      by blast
    then show ?thesis
      unfolding comp_key_width [OF fin [OF CM]] comp_key_width [OF fin [OF D]] key_le_iff
      by auto
  qed
  moreover have "best_indices values tol = Inr (Some (sorted_list_of_set C))"
    using ne C(2) by (simp add: best_indices_def groups_of_values)
  ultimately show "\<exists>C \<in> majority_groups values tol.
           best_indices values tol = Inr (Some (sorted_list_of_set C))
           \<and> (\<forall>D \<in> majority_groups values tol.
                 card D < card C \<or> (card D = card C \<and> width values C \<le> width values D))"
    using CM by blast
qed

subsection \<open>The truncated median\<close>

lemma trunc_half_between:
  assumes "a \<le> b"
  shows "a \<le> trunc_half (a + b)" "trunc_half (a + b) \<le> b"
  using assms by (auto simp: trunc_half_def)


lemma int_median_total:
  assumes "xs \<noteq> []"
  shows "\<exists>m. int_median xs = Inr m \<and> Min (set xs) \<le> m \<and> m \<le> Max (set xs)"
proof -
  let ?s = "sort xs" and ?n = "length xs"
  have n: "0 < ?n" using assms by simp
  have mem: "?s ! k \<in> set xs" if "k < ?n" for k
    using that by (metis length_sort nth_mem set_sort)
  have bounds: "Min (set xs) \<le> ?s ! k" "?s ! k \<le> Max (set xs)" if "k < ?n" for k
    using mem [OF that] by simp_all
  show ?thesis
  proof (cases "odd ?n")
    case True
    with n bounds [of "?n div 2"] show ?thesis by (simp add: int_median_def Let_def)
  next
    case False
    have k: "?n div 2 - 1 < ?n" "?n div 2 < ?n" using n by presburger+
    have le: "?s ! (?n div 2 - 1) \<le> ?s ! (?n div 2)"
      using k by (intro sorted_nth_mono) simp_all
    from trunc_half_between [OF le] bounds [OF k(1)] bounds [OF k(2)] False n
    show ?thesis by (simp add: int_median_def Let_def)
  qed
qed


lemma sequence_map_Inr: "sequence (map (\<lambda>k. Inr (f k)) ks) = Inr (map f ks)"
  by (induction ks) simp_all

lemma index_all_in_range:
  assumes "\<forall>k \<in> set ks. k < length xs"
  shows "index_all xs ks = Inr (map (\<lambda>k. xs ! k) ks)"
  using assms by (induction ks) (simp_all add: index_all_def)

lemma majority_group_props:
  assumes "C \<in> majority_groups values tol"
  shows "finite C" "C \<noteq> {}" "C \<subseteq> {..<length values}" "2 \<le> card C"
proof -
  from assms obtain i where i: "i < length values" "C = component values tol i" "2 \<le> card C"
    by (auto simp: majority_groups_def)
  show "finite C" using i component_finite by simp
  show "C \<noteq> {}" using i component_self by auto
  show "C \<subseteq> {..<length values}" using i component_bounded by simp
  show "2 \<le> card C" by (rule i(3))
qed




text \<open>
  The result does not depend on the order in which the neighbours of a vertex are listed:
  two adjacency lists with the same edges give the same groups.
\<close>

lemma groups_loop_order_independent:
  assumes "closed_adj adj" "sym (edges adj)" "closed_adj adj'"
    and "edges adj' = edges adj" "length adj' = length adj"
  shows "groups_loop adj' [0..<length adj'] {} [] = groups_loop adj [0..<length adj] {} []"
  using groups_loop_all [OF assms(1,2)] groups_loop_all [OF assms(3)] assms(2,4,5) by simp

section \<open>Properties of \<^verbatim>\<open>consensus_edgewise\<close>\<close>

subsection \<open>Order statistics\<close>







subsection \<open>One cluster\<close>

lemma best_indices_cases:
  obtains (none) "best_indices values tol = Inr None" "majority_groups values tol = {}"
  | (some) C where "best_indices values tol = Inr (Some (sorted_list_of_set C))"
      "C \<in> majority_groups values tol"
  using best_indices_result [of "values" tol] by (cases "majority_groups values tol = {}") auto

lemma best_group_none_iff:
  assumes "length tls = length values"
  shows "best_group values tls tol = Inr (None, u) \<longleftrightarrow> best_indices values tol = Inr None \<and> u = []"
proof (cases rule: best_indices_cases [of "values" tol])
  case none
  then show ?thesis by (auto simp: best_group_def)
next
  case (some C)
  note P = majority_group_props [OF some(2)]
  have "map (\<lambda>k. values ! k) (sorted_list_of_set C) \<noteq> []" using P(1,2) by simp
  from int_median_total [OF this] obtain med where
    "int_median (map (\<lambda>k. values ! k) (sorted_list_of_set C)) = Inr med" by blast
  moreover have "\<forall>k \<in> set (sorted_list_of_set C). k < length tls" using P(1,3) assms by auto
  then have "index_all tls (sorted_list_of_set C) = Inr (map (\<lambda>k. tls ! k) (sorted_list_of_set C))"
    by (rule index_all_in_range)
  ultimately show ?thesis using some(1) by (simp add: best_group_def)
qed

text \<open>What the two halves of the branch for several tools return.\<close>

lemma resolve_start_cases [consumes 2, case_names fallback group]:
  assumes "length tls = length starts" "starts \<noteq> []"
  obtains (fallback) "best_indices starts tol = Inr None"
      "resolve_start starts tls tol = Inr (Min (set starts), tls, ''start_min'')"
  | (group) C med where "C \<in> majority_groups starts tol"
      "best_indices starts tol = Inr (Some (sorted_list_of_set C))"
      "int_median (map (\<lambda>k. starts ! k) (sorted_list_of_set C)) = Inr med"
      "resolve_start starts tls tol =
         Inr (med, map (\<lambda>k. tls ! k) (sorted_list_of_set C),
              ''start_consensus_'' @ str_nat (card C))"
proof (cases rule: best_indices_cases [of starts tol])
  case none
  then have "resolve_start starts tls tol = Inr (Min (set starts), tls, ''start_min'')"
    using assms by (simp add: resolve_start_def best_group_def)
  with none fallback show ?thesis by blast
next
  case (some C)
  note P = majority_group_props [OF some(2)]
  have "map (\<lambda>k. starts ! k) (sorted_list_of_set C) \<noteq> []" using P(1,2) by simp
  from int_median_total [OF this] obtain med where
    med: "int_median (map (\<lambda>k. starts ! k) (sorted_list_of_set C)) = Inr med" by blast
  have "\<forall>k \<in> set (sorted_list_of_set C). k < length tls" using P(1,3) assms by auto
  then have "index_all tls (sorted_list_of_set C) = Inr (map (\<lambda>k. tls ! k) (sorted_list_of_set C))"
    by (rule index_all_in_range)
  with med some(1) P(1) have "resolve_start starts tls tol =
         Inr (med, map (\<lambda>k. tls ! k) (sorted_list_of_set C),
              ''start_consensus_'' @ str_nat (card C))"
    by (simp add: resolve_start_def best_group_def)
  with some med group show ?thesis by blast
qed

lemma resolve_end_cases [consumes 2, case_names fallback group]:
  assumes "length tls = length ends" "ends \<noteq> []"
  obtains (fallback) "best_indices ends tol = Inr None"
      "resolve_end ends tls tol = Inr (Max (set ends), tls, ''end_max'')"
  | (group) C med where "C \<in> majority_groups ends tol"
      "best_indices ends tol = Inr (Some (sorted_list_of_set C))"
      "int_median (map (\<lambda>k. ends ! k) (sorted_list_of_set C)) = Inr med"
      "resolve_end ends tls tol =
         Inr (med, map (\<lambda>k. tls ! k) (sorted_list_of_set C),
              ''end_consensus_'' @ str_nat (card C))"
proof (cases rule: best_indices_cases [of ends tol])
  case none
  then have "resolve_end ends tls tol = Inr (Max (set ends), tls, ''end_max'')"
    using assms by (simp add: resolve_end_def best_group_def)
  with none fallback show ?thesis by blast
next
  case (some C)
  note P = majority_group_props [OF some(2)]
  have "map (\<lambda>k. ends ! k) (sorted_list_of_set C) \<noteq> []" using P(1,2) by simp
  from int_median_total [OF this] obtain med where
    med: "int_median (map (\<lambda>k. ends ! k) (sorted_list_of_set C)) = Inr med" by blast
  have "\<forall>k \<in> set (sorted_list_of_set C). k < length tls" using P(1,3) assms by auto
  then have "index_all tls (sorted_list_of_set C) = Inr (map (\<lambda>k. tls ! k) (sorted_list_of_set C))"
    by (rule index_all_in_range)
  with med some(1) P(1) have "resolve_end ends tls tol =
         Inr (med, map (\<lambda>k. tls ! k) (sorted_list_of_set C),
              ''end_consensus_'' @ str_nat (card C))"
    by (simp add: resolve_end_def best_group_def)
  with some med group show ?thesis by blast
qed

text \<open>The row of a cluster with several representatives, from the two halves.\<close>

lemma consensus_row_several:
  assumes "length g \<noteq> 1"
    and "resolve_start (map rep_start g) (map rep_tool g) tol = Inr (s_cons, used_s, start_part)"
    and "resolve_end (map rep_end g) (map rep_tool g) tol = Inr (e_cons, used_e, end_part)"
  shows "consensus_row tol key g =
     Inr \<lparr>consensus_id = fst key @ ''_prophage_'' @ str_int s_cons @ ''_'' @ str_int e_cons,
          cons_contig = fst key, n_tools = length g, tools = join '','' (sort (map rep_tool g)),
          consensus_start = s_cons, consensus_end = e_cons,
          method' = start_part @ ''+'' @ end_part,
          used_tools_start = join '','' (sort used_s),
          used_tools_end = join '','' (sort used_e)\<rparr>"
  using assms by (simp add: consensus_row_def Let_def)

lemma consensus_row_single:
  "consensus_row tol key [rp] =
     Inr \<lparr>consensus_id = fst key @ ''_prophage_'' @ str_int (rep_start rp) @ ''_'' @ str_int (rep_end rp),
          cons_contig = fst key, n_tools = 1, tools = rep_tool rp,
          consensus_start = rep_start rp, consensus_end = rep_end rp,
          method' = ''single_tool'',
          used_tools_start = rep_tool rp,
          used_tools_end = rep_tool rp\<rparr>"
  by (simp add: consensus_row_def Let_def)

lemma consensus_row_total:
  assumes "g \<noteq> []"
  shows "\<exists>r. consensus_row tol key g = Inr r"
proof (cases "length g = 1")
  case True
  then obtain rp where "g = [rp]" by (cases g) auto
  then show ?thesis by (simp add: consensus_row_single)
next
  case False
  have l: "length (map rep_tool g) = length (map rep_start g)" "map rep_start g \<noteq> []"
    "length (map rep_tool g) = length (map rep_end g)" "map rep_end g \<noteq> []"
    using assms by simp_all
  obtain s us sp where "resolve_start (map rep_start g) (map rep_tool g) tol = Inr (s, us, sp)"
    using l(1,2) by (cases rule: resolve_start_cases [where tol = tol]) blast+
  moreover obtain e ue ep where "resolve_end (map rep_end g) (map rep_tool g) tol = Inr (e, ue, ep)"
    using l(3,4) by (cases rule: resolve_end_cases [where tol = tol]) blast+
  ultimately show ?thesis using consensus_row_several [OF False] by blast
qed



subsection \<open>The table of the representatives\<close>

lemma int_median_median_of: "xs \<noteq> [] \<Longrightarrow> int_median xs = Inr (median_of xs)"
  using int_median_total [of xs] by (auto simp: median_of_def)

lemma sequence_all_Inr:
  assumes "\<forall>x \<in> set xs. f x = Inr (h x)"
  shows "sequence (map f xs) = Inr (map h xs)"
  using assms by (induction xs) simp_all

lemma representatives_eq:
  "representatives ms =
     Inr (map (\<lambda>(c, k, t). cluster_rep ms (c, k) t)
            (sort (remdups (map (\<lambda>m. (contig m, cluster_idx m, tool m)) ms))))"
  unfolding representatives_def
proof (rule sequence_all_Inr, rule ballI)
  fix x assume x: "x \<in> set (sort (remdups (map (\<lambda>m. (contig m, cluster_idx m, tool m)) ms)))"
  obtain c k t where ckt: "x = (c, k, t)" by (cases x)
  let ?g = "filter (\<lambda>m. contig m = c \<and> cluster_idx m = k \<and> tool m = t) ms"
  from x ckt have ne: "?g \<noteq> []" by (auto simp: filter_empty_conv)
  have g: "?g = filter (\<lambda>m. tool m = t) (cluster_members ms (c, k))"
    by (simp add: cluster_members_def conj_commute conj_left_commute)
  have "int_median (map start ?g) = Inr (median_of (map start ?g))"
    "int_median (map end' ?g) = Inr (median_of (map end' ?g))"
    using ne by (simp_all add: int_median_median_of)
  then show "(case x of (c, k, t) \<Rightarrow>
          let g = filter (\<lambda>m. contig m = c \<and> cluster_idx m = k \<and> tool m = t) ms in
          case int_median (map start g) of Inl e \<Rightarrow> Inl e
          | Inr s \<Rightarrow> (case int_median (map end' g) of Inl e \<Rightarrow> Inl e
              | Inr e \<Rightarrow> Inr \<lparr>rep_contig = c, rep_cluster_idx = k, rep_tool = t, rep_start = s, rep_end = e\<rparr>))
        = Inr (case x of (c, k, t) \<Rightarrow> cluster_rep ms (c, k) t)"
    unfolding ckt by (simp add: Let_def cluster_rep_def g)
qed

lemma sorted_distinct_eqI:
  fixes xs ys :: "'a :: linorder list"
  assumes "sorted xs" "distinct xs" "sorted ys" "distinct ys" "set xs = set ys"
  shows "xs = ys"
  using assms by (metis sorted_distinct_set_unique)

lemma keys3_of_cluster:
  "filter (\<lambda>(c, k, t). (c, k) = key) (sort (remdups (map (\<lambda>m. (contig m, cluster_idx m, tool m)) ms)))
     = map (\<lambda>t. (fst key, snd key, t)) (cluster_tools ms key)"
proof (rule sorted_distinct_eqI)
  show "sorted (filter (\<lambda>(c, k, t). (c, k) = key)
      (sort (remdups (map (\<lambda>m. (contig m, cluster_idx m, tool m)) ms))))"
    by (rule sorted_wrt_filter) simp
  show "distinct (filter (\<lambda>(c, k, t). (c, k) = key)
      (sort (remdups (map (\<lambda>m. (contig m, cluster_idx m, tool m)) ms))))"
    by simp
  have "sorted (cluster_tools ms key)" by (simp add: cluster_tools_def)
  then have "sorted_wrt (\<lambda>a b. (fst key, snd key, a) \<le> (fst key, snd key, b)) (cluster_tools ms key)"
    by (rule sorted_wrt_mono_rel [rotated]) (auto simp: less_eq_prod_def)
  then show "sorted (map (\<lambda>t. (fst key, snd key, t)) (cluster_tools ms key))"
    by (simp add: sorted_map)
  show "distinct (map (\<lambda>t. (fst key, snd key, t)) (cluster_tools ms key))"
    by (simp add: distinct_map cluster_tools_def inj_on_def)
  show "set (filter (\<lambda>(c, k, t). (c, k) = key)
      (sort (remdups (map (\<lambda>m. (contig m, cluster_idx m, tool m)) ms))))
      = set (map (\<lambda>t. (fst key, snd key, t)) (cluster_tools ms key))"
    by (auto simp: cluster_tools_def cluster_members_def)
qed

lemma reps_of_cluster:
  assumes "representatives ms = Inr reps"
  shows "filter (\<lambda>r. (rep_contig r, rep_cluster_idx r) = key) reps = cluster_reps ms key"
proof -
  let ?keys = "sort (remdups (map (\<lambda>m. (contig m, cluster_idx m, tool m)) ms))"
  from assms have reps: "reps = map (\<lambda>(c, k, t). cluster_rep ms (c, k) t) ?keys"
    by (simp add: representatives_eq)
  have "filter (\<lambda>r. (rep_contig r, rep_cluster_idx r) = key) reps
      = map (\<lambda>(c, k, t). cluster_rep ms (c, k) t) (filter (\<lambda>(c, k, t). (c, k) = key) ?keys)"
    unfolding reps filter_map
    by (rule arg_cong [where f = "map _"], rule filter_cong [OF refl])
       (auto simp: cluster_rep_def)
  also have "\<dots> = cluster_reps ms key"
    by (simp add: keys3_of_cluster cluster_reps_def comp_def)
  finally show ?thesis .
qed

lemma sorted_unique:
  fixes xs :: "'a :: linorder list"
  shows "sorted xs \<Longrightarrow> sorted (unique xs)"
proof (induction xs rule: unique.induct)
  case 1
  show ?case by simp
next
  case (2 x xs)
  from "2.prems" have "sorted (filter (\<lambda>y. y \<noteq> x) xs)" by (simp add: sorted_wrt_filter)
  with "2.IH" have "sorted (unique (filter (\<lambda>y. y \<noteq> x) xs))" by simp
  moreover from "2.prems" have "\<forall>y \<in> set (unique (filter (\<lambda>y. y \<noteq> x) xs)). x \<le> y" by auto
  ultimately show ?case by simp
qed

lemma keys_of_reps:
  assumes "representatives ms = Inr reps"
  shows "unique (map (\<lambda>r. (rep_contig r, rep_cluster_idx r)) reps) = cluster_keys ms"
proof (rule sorted_distinct_eqI)
  let ?keys = "sort (remdups (map (\<lambda>m. (contig m, cluster_idx m, tool m)) ms))"
  from assms have reps: "reps = map (\<lambda>(c, k, t). cluster_rep ms (c, k) t) ?keys"
    by (simp add: representatives_eq)
  have m: "map (\<lambda>r. (rep_contig r, rep_cluster_idx r)) reps = map (\<lambda>(c, k, t). (c, k)) ?keys"
    unfolding reps by (simp add: comp_def case_prod_unfold cluster_rep_def)
  have "sorted ?keys" by simp
  then have "sorted_wrt (\<lambda>a b. (case a of (c, k, t) \<Rightarrow> (c, k)) \<le> (case b of (c, k, t) \<Rightarrow> (c, k))) ?keys"
    by (rule sorted_wrt_mono_rel [rotated]) (auto simp: less_eq_prod_def)
  then have "sorted (map (\<lambda>(c, k, t). (c, k)) ?keys)" by (simp add: sorted_map)
  then show "sorted (unique (map (\<lambda>r. (rep_contig r, rep_cluster_idx r)) reps))"
    unfolding m by (rule sorted_unique)
  show "distinct (unique (map (\<lambda>r. (rep_contig r, rep_cluster_idx r)) reps))" by simp
  show "sorted (cluster_keys ms)" "distinct (cluster_keys ms)" by (simp_all add: cluster_keys_def)
  show "set (unique (map (\<lambda>r. (rep_contig r, rep_cluster_idx r)) reps)) = set (cluster_keys ms)"
    unfolding set_unique m by (force simp: cluster_keys_def)
qed

lemma cluster_reps_nonempty:
  assumes "key \<in> set (cluster_keys ms)"
  shows "cluster_reps ms key \<noteq> []"
proof -
  from assms obtain m where "m \<in> set ms" "(contig m, cluster_idx m) = key"
    by (auto simp: cluster_keys_def)
  then have "tool m \<in> set (cluster_tools ms key)"
    by (auto simp: cluster_tools_def cluster_members_def)
  then show ?thesis by (auto simp: cluster_reps_def)
qed

lemma cluster_row_total:
  assumes "key \<in> set (cluster_keys ms)"
  shows "\<exists>r. cluster_row tol ms key = Inr r"
  unfolding cluster_row_def using cluster_reps_nonempty [OF assms] by (rule consensus_row_total)

lemma cluster_row_the_row:
  "key \<in> set (cluster_keys ms) \<Longrightarrow> cluster_row tol ms key = Inr (the_row tol ms key)"
  using cluster_row_total [of key ms tol] by (auto simp: the_row_def)

lemma consensus_edgewise_eq:
  assumes "ms \<noteq> []"
  shows "consensus_edgewise ms tol =
     Inr (sort_key (\<lambda>r. (cons_contig r, consensus_start r)) (map (the_row tol ms) (cluster_keys ms)))"
proof -
  obtain reps where reps: "representatives ms = Inr reps" by (simp add: representatives_eq)
  have keys: "unique (map (\<lambda>r. (rep_contig r, rep_cluster_idx r)) reps) = cluster_keys ms"
    using reps by (rule keys_of_reps)
  have "sequence (map (\<lambda>key. consensus_row tol key
            (filter (\<lambda>r. (rep_contig r, rep_cluster_idx r) = key) reps)) (cluster_keys ms))
      = Inr (map (the_row tol ms) (cluster_keys ms))"
  proof (rule sequence_all_Inr, rule ballI)
    fix key assume "key \<in> set (cluster_keys ms)"
    then show "consensus_row tol key (filter (\<lambda>r. (rep_contig r, rep_cluster_idx r) = key) reps)
        = Inr (the_row tol ms key)"
      using cluster_row_the_row [of key ms tol] reps_of_cluster [OF reps, of key]
      by (simp add: cluster_row_def)
  qed
  moreover have "cluster_keys ms \<noteq> []"
    using assms by (cases ms) (auto simp: cluster_keys_def dest: arg_cong [where f = set])
  ultimately show ?thesis using reps keys by (simp add: consensus_edgewise_def)
qed


subsection \<open>Order of the consensus coordinates\<close>




lemma mset_by_key:
  assumes "distinct ks"
  shows "mset (concat (map (\<lambda>k. filter (\<lambda>r. f r = k) xs) ks)) = filter_mset (\<lambda>r. f r \<in> set ks) (mset xs)"
  using assms
proof (induction ks)
  case Nil
  show ?case by simp
next
  case (Cons k ks)
  then have "mset (concat (map (\<lambda>k. filter (\<lambda>r. f r = k) xs) (k # ks)))
      = filter_mset (\<lambda>r. f r = k) (mset xs) + filter_mset (\<lambda>r. f r \<in> set ks) (mset xs)"
    by simp
  also have "\<dots> = filter_mset (\<lambda>r. f r \<in> set (k # ks)) (mset xs)"
    using Cons.prems by (induction xs) auto
  finally show ?case .
qed

lemma cluster_by_contig_calls:
  "mset (map call_of (cluster_by_contig calls thr md)) = mset calls"
proof -
  let ?ks = "unique (map contig calls)"
  have "map call_of (cluster_by_contig calls thr md)
      = concat (map (\<lambda>c. map call_of (concat (cluster_contig thr md c (filter (\<lambda>r. contig r = c) calls)))) ?ks)"
    by (simp add: cluster_by_contig_def map_concat comp_def)
  also have "\<dots> = concat (map (\<lambda>c. sort_key (\<lambda>r. (start r, end' r)) (filter (\<lambda>r. contig r = c) calls)) ?ks)"
    by (simp add: cluster_contig_calls)
  finally have "mset (map call_of (cluster_by_contig calls thr md))
      = mset (concat (map (\<lambda>c. filter (\<lambda>r. contig r = c) calls) ?ks))"
    by (simp add: mset_concat comp_def)
  also have "\<dots> = filter_mset (\<lambda>r. contig r \<in> set ?ks) (mset calls)"
    by (rule mset_by_key) simp
  also have "\<dots> = mset calls" by (simp add: filter_mset_eq_conv)
  finally show ?thesis .
qed


lemma the_row_in_output:
  assumes "consensus_edgewise ms tol = Inr cons" "key \<in> set (cluster_keys ms)"
  shows "the_row tol ms key \<in> set cons"
proof -
  from assms(2) have "ms \<noteq> []" by (auto simp: cluster_keys_def)
  from consensus_edgewise_eq [OF this, of tol] assms show ?thesis by auto
qed

lemma consensus_edgewise_cluster:
  assumes key: "key \<in> set (map (\<lambda>m. (contig m, cluster_idx m)) ms)"
  shows "\<exists>reps cons. representatives ms = Inr reps \<and> consensus_edgewise ms tol = Inr cons
      \<and> filter (\<lambda>r. (rep_contig r, rep_cluster_idx r) = key) reps = cluster_reps ms key
      \<and> cluster_reps ms key \<noteq> []
      \<and> consensus_row tol key (cluster_reps ms key) = Inr (the_row tol ms key)
      \<and> the_row tol ms key \<in> set cons"
proof -
  from key have k: "key \<in> set (cluster_keys ms)" and ne: "ms \<noteq> []"
    by (auto simp: cluster_keys_def)
  obtain reps where reps: "representatives ms = Inr reps" by (simp add: representatives_eq)
  obtain cons where cons: "consensus_edgewise ms tol = Inr cons"
    using consensus_edgewise_eq [OF ne] by blast
  from reps_of_cluster [OF reps, of key] cluster_reps_nonempty [OF k]
    cluster_row_the_row [OF k, of tol] the_row_in_output [OF cons k] reps cons
  show ?thesis by (auto simp: cluster_row_def)
qed



lemma ex_rows_members:
  "cluster_by_contig ex_rows (1 / 2) 1000 =
    [\<lparr>tool = ''VirSorter2'', contig = ''ctg1'', start = 100, end' = 5000,
        id_raw = ''ctg1_prophage_100_5000'', cluster_idx = 1\<rparr>,
      \<lparr>tool = ''geNomad'', contig = ''ctg1'', start = 110, end' = 4995,
        id_raw = ''ctg1_prophage_110_4995'', cluster_idx = 1\<rparr>,
     \<lparr>tool = ''VIBRANT'', contig = ''ctg1'', start = 7000, end' = 7100,
        id_raw = ''ctg1_prophage_7000_7100'', cluster_idx = 2\<rparr>]"
  by code_simp




lemma cluster_tools_single:
  assumes ne: "\<exists>m \<in> set ms. contig m = c \<and> cluster_idx m = k"
    and one: "\<forall>m \<in> set ms. contig m = c \<and> cluster_idx m = k \<longrightarrow> tool m = t"
  shows "cluster_tools ms (c, k) = [t]"
proof (rule sorted_distinct_eqI)
  show "sorted (cluster_tools ms (c, k))" "distinct (cluster_tools ms (c, k))"
    by (simp_all add: cluster_tools_def)
  show "sorted [t]" "distinct [t]" by simp_all
  show "set (cluster_tools ms (c, k)) = set [t]"
    using ne one by (auto simp: cluster_tools_def cluster_members_def)
qed

text \<open>
  C7. For a cluster of a member table whose members all come from one tool \<open>t\<close>: the
  cluster has one representative, that of \<open>t\<close>, with the truncated medians \<open>s\<close> and \<open>e\<close> of
  the starts and the ends of the members; the consensus row of the cluster has
  \<open>consensus_start = s\<close> and \<open>consensus_end = e\<close>, the method \<open>single_tool\<close> and
  \<open>used_tools_start = used_tools_end = t\<close>; and it is a row of the table that
  \<^verbatim>\<open>consensus_edgewise\<close> returns.
\<close>

theorem single_tool_passthrough:
  fixes ms :: "member list" and tol :: int and c t :: string and k :: nat
  assumes ne: "\<exists>m \<in> set ms. contig m = c \<and> cluster_idx m = k"
    and one: "\<forall>m \<in> set ms. contig m = c \<and> cluster_idx m = k \<longrightarrow> tool m = t"
  shows "\<exists>reps cons s e. representatives ms = Inr reps \<and> consensus_edgewise ms tol = Inr cons
      \<and> int_median (map start (filter (\<lambda>m. contig m = c \<and> cluster_idx m = k) ms)) = Inr s
      \<and> int_median (map end' (filter (\<lambda>m. contig m = c \<and> cluster_idx m = k) ms)) = Inr e
      \<and> filter (\<lambda>r. (rep_contig r, rep_cluster_idx r) = (c, k)) reps
          = [\<lparr>rep_contig = c, rep_cluster_idx = k, rep_tool = t, rep_start = s, rep_end = e\<rparr>]
      \<and> consensus_row tol (c, k)
            [\<lparr>rep_contig = c, rep_cluster_idx = k, rep_tool = t, rep_start = s, rep_end = e\<rparr>]
          = Inr \<lparr>consensus_id = c @ ''_prophage_'' @ str_int s @ ''_'' @ str_int e,
                 cons_contig = c, n_tools = 1, tools = t,
                 consensus_start = s, consensus_end = e, method' = ''single_tool'',
                 used_tools_start = t, used_tools_end = t\<rparr>
      \<and> \<lparr>consensus_id = c @ ''_prophage_'' @ str_int s @ ''_'' @ str_int e,
           cons_contig = c, n_tools = 1, tools = t,
           consensus_start = s, consensus_end = e, method' = ''single_tool'',
           used_tools_start = t, used_tools_end = t\<rparr> \<in> set cons"
proof -
  let ?grp = "filter (\<lambda>m. contig m = c \<and> cluster_idx m = k) ms"
  let ?s = "median_of (map start ?grp)" and ?e = "median_of (map end' ?grp)"
  let ?rp = "\<lparr>rep_contig = c, rep_cluster_idx = k, rep_tool = t, rep_start = ?s, rep_end = ?e\<rparr>"
  from ne have key: "(c, k) \<in> set (map (\<lambda>m. (contig m, cluster_idx m)) ms)" by force
  from consensus_edgewise_cluster [OF key, of tol] obtain reps cons where
    r: "representatives ms = Inr reps" "consensus_edgewise ms tol = Inr cons"
       "filter (\<lambda>r. (rep_contig r, rep_cluster_idx r) = (c, k)) reps = cluster_reps ms (c, k)"
       "consensus_row tol (c, k) (cluster_reps ms (c, k)) = Inr (the_row tol ms (c, k))"
       "the_row tol ms (c, k) \<in> set cons"
    by blast
  have grp: "cluster_members ms (c, k) = ?grp" by (simp add: cluster_members_def)
  have "filter (\<lambda>m. tool m = t) ?grp = ?grp"
    unfolding filter_id_conv using one by simp
  then have flt: "filter (\<lambda>m. tool m = t) (cluster_members ms (c, k)) = ?grp"
    unfolding grp .
  have reps1: "cluster_reps ms (c, k) = [?rp]"
    by (simp add: cluster_reps_def cluster_tools_single [OF ne one] cluster_rep_def flt)
  have gne: "?grp \<noteq> []" using ne by (auto simp: filter_empty_conv)
  then have med: "int_median (map start ?grp) = Inr ?s" "int_median (map end' ?grp) = Inr ?e"
    by (simp_all add: int_median_median_of)
  from r(4) have row: "the_row tol ms (c, k) =
      \<lparr>consensus_id = c @ ''_prophage_'' @ str_int ?s @ ''_'' @ str_int ?e,
       cons_contig = c, n_tools = 1, tools = t,
       consensus_start = ?s, consensus_end = ?e, method' = ''single_tool'',
       used_tools_start = t, used_tools_end = t\<rparr>"
    unfolding reps1 consensus_row_single by simp
  show ?thesis
    using r(1,2) med r(3) r(5) unfolding reps1 row
    by (intro exI [of _ reps] exI [of _ cons] exI [of _ ?s] exI [of _ ?e])
       (simp add: consensus_row_single)
qed

theorem single_tool_passthrough_witness:
  "\<exists>cons. consensus_edgewise (cluster_by_contig ex_rows (1 / 2) 1000) 200 = Inr cons
     \<and> \<lparr>consensus_id = ''ctg1_prophage_7000_7100'', cons_contig = ''ctg1'', n_tools = 1,
         tools = ''VIBRANT'', consensus_start = 7000, consensus_end = 7100,
         method' = ''single_tool'', used_tools_start = ''VIBRANT'',
         used_tools_end = ''VIBRANT''\<rparr> \<in> set cons"
proof -
  let ?ms = "cluster_by_contig ex_rows (1 / 2) 1000"
  have ne: "\<exists>m \<in> set ?ms. contig m = ''ctg1'' \<and> cluster_idx m = 2"
    by (simp add: ex_rows_members)
  have one: "\<forall>m \<in> set ?ms. contig m = ''ctg1'' \<and> cluster_idx m = 2 \<longrightarrow> tool m = ''VIBRANT''"
    by (simp add: ex_rows_members)
  have med: "int_median (map start (filter (\<lambda>m. contig m = ''ctg1'' \<and> cluster_idx m = 2) ?ms)) = Inr 7000"
    "int_median (map end' (filter (\<lambda>m. contig m = ''ctg1'' \<and> cluster_idx m = 2) ?ms)) = Inr 7100"
    by (simp_all add: ex_rows_members int_median_def)
  have str: "str_int 7000 = ''7000''" "str_int 7100 = ''7100''"
    by (simp_all add: str_int_def digit_char_def)
  from single_tool_passthrough [OF ne one, of 200] obtain reps cons s e where
    r: "consensus_edgewise ?ms 200 = Inr cons"
       "int_median (map start (filter (\<lambda>m. contig m = ''ctg1'' \<and> cluster_idx m = 2) ?ms)) = Inr s"
       "int_median (map end' (filter (\<lambda>m. contig m = ''ctg1'' \<and> cluster_idx m = 2) ?ms)) = Inr e"
       "\<lparr>consensus_id = ''ctg1'' @ ''_prophage_'' @ str_int s @ ''_'' @ str_int e,
           cons_contig = ''ctg1'', n_tools = 1, tools = ''VIBRANT'',
           consensus_start = s, consensus_end = e, method' = ''single_tool'',
           used_tools_start = ''VIBRANT'', used_tools_end = ''VIBRANT''\<rparr> \<in> set cons"
    by (elim exE conjE) (rule that)
  from r(2,3) med have "s = 7000" "e = 7100" by simp_all
  with r(1,4) str show ?thesis by simp
qed
section \<open>Properties of \<^verbatim>\<open>create_mapping\<close> and of the pipeline\<close>

subsection \<open>The member table, contig by contig\<close>

lemma filter_concat_blocks:
  assumes "distinct ks"
    and "\<forall>k \<in> set ks. \<forall>x \<in> set (F k). \<forall>k' \<in> set ks. P k' x \<longleftrightarrow> k' = k"
    and "c \<in> set ks"
  shows "filter (P c) (concat (map F ks)) = F c"
  using assms
proof (induction ks)
  case Nil
  then show ?case by simp
next
  case (Cons k ks)
  show ?case
  proof (cases "c = k")
    case True
    have "filter (P c) (F k) = F k"
      using Cons.prems(2) True by (auto simp: filter_id_conv)
    moreover have "filter (P c) (concat (map F ks)) = []"
      using Cons.prems(1,2) True by (auto simp: filter_empty_conv)
    ultimately show ?thesis using True by simp
  next
    case False
    with Cons.prems have c: "c \<in> set ks" by simp
    have "filter (P c) (F k) = []"
      using Cons.prems(2) False c by (auto simp: filter_empty_conv)
    moreover have "filter (P c) (concat (map F ks)) = F c"
      using Cons.prems c by (intro Cons.IH) auto
    ultimately show ?thesis by simp
  qed
qed

lemma cluster_contig_contig:
  "m \<in> set (concat (cluster_contig thr md c rows)) \<Longrightarrow> contig m = c"
  unfolding cluster_contig_rows by auto

lemma members_of_contig:
  assumes "c \<in> set (map contig calls)"
  shows "filter (\<lambda>m. contig m = c) (cluster_by_contig calls thr md)
     = concat (cluster_contig thr md c (filter (\<lambda>r. contig r = c) calls))"
  unfolding cluster_by_contig_def
  by (rule filter_concat_blocks [where P = "\<lambda>c m. contig m = c"])
     (use assms cluster_contig_contig in \<open>auto simp del: set_concat\<close>)



lemma member_cluster_idx:
  fixes thr :: rat and md :: int and calls :: "call list"
  assumes m: "m \<in> set (cluster_by_contig calls thr md)"
  defines "fs \<equiv> cluster_contig thr md (contig m) (filter (\<lambda>r. contig r = contig m) calls)"
  shows "contig m \<in> set (map contig calls)" "1 \<le> cluster_idx m" "cluster_idx m \<le> length fs"
proof -
  from m obtain c where c: "c \<in> set (map contig calls)"
    "m \<in> set (concat (cluster_contig thr md c (filter (\<lambda>r. contig r = c) calls)))"
    by (auto simp: cluster_by_contig_def)
  from cluster_contig_contig [OF c(2)] have cm: "contig m = c" .
  with c(1) show "contig m \<in> set (map contig calls)" by simp
  from c(2) cm have "m \<in> set (concat fs)" by (simp add: fs_def)
  then obtain xs where "xs \<in> set fs" "m \<in> set xs" by auto
  then obtain f where f: "f < length fs" "m \<in> set (fs ! f)"
    by (auto simp: in_set_conv_nth)
  with cluster_contig_frames [of f thr md "contig m" "filter (\<lambda>r. contig r = contig m) calls"]
  have "cluster_idx m = Suc f" by (simp add: fs_def)
  with f(1) show "1 \<le> cluster_idx m" "cluster_idx m \<le> length fs" by simp_all
qed



subsection \<open>Where the consensus start lies\<close>






subsection \<open>The identifier map\<close>





text \<open>
  The loaders read contig, start and end out of the raw identifier (\<^verbatim>\<open>parse_prophage_id\<close>),
  so in a call table they build, calls with the same raw identifier have the same contig
  and the same coordinates. Calls of one contig with the same start fall in one cluster
  when \<open>start \<le> end\<close> holds, \<open>max_dist\<close> is not negative and \<open>overlap_thresh\<close> is positive;
  on such a table no raw identifier is carried by members of two clusters.
\<close>

lemma in_map_upt:
  "x \<in> set (map f [0..<n]) \<longleftrightarrow> (\<exists>i<n. x = f i)"
  by auto

lemma equal_calls_bridged:
  assumes srt: "sorted (map start dfc)" and ij: "i \<le> j" "j < length dfc"
    and eq: "start (dfc ! j) = start (dfc ! i)" and wf: "start (dfc ! i) \<le> end' (dfc ! i)"
    and md: "0 \<le> md"
  shows "bridged md dfc i j"
  unfolding bridged_def
proof (intro allI impI)
  fix k assume k: "i < k \<and> k \<le> j"
  with srt ij have "start (dfc ! k) \<le> start (dfc ! j)" by (simp add: sorted_iff_nth_mono)
  with eq wf md have "start (dfc ! k) - end' (dfc ! i) \<le> md" by simp
  with k show "\<exists>l<k. start (dfc ! k) - end' (dfc ! l) \<le> md" by blast
qed

lemma equal_calls_same_cluster:
  fixes thr :: rat and md :: int and calls :: "call list"
  defines "ms \<equiv> cluster_by_contig calls thr md"
  assumes wf: "\<forall>r \<in> set calls. start r \<le> end' r" and md: "0 \<le> md" and thr: "0 < thr"
    and m: "m \<in> set ms" "m' \<in> set ms"
    and eq: "contig m' = contig m" "start m' = start m"
  shows "cluster_idx m' = cluster_idx m"
proof -
  let ?c = "contig m"
  let ?rows = "filter (\<lambda>r. contig r = ?c) calls"
  let ?dfc = "sort_key (\<lambda>r. (start r, end' r)) ?rows"
  have c: "?c \<in> set (map contig calls)" using m(1) unfolding ms_def by (rule member_cluster_idx(1))
  have fr: "filter (\<lambda>x. contig x = ?c) ms
      = map (\<lambda>j. with_cluster (?dfc ! j) ?c (cid_at thr md ?c ?dfc j)) [0..<length ?rows]"
    unfolding ms_def members_of_contig [OF c] cluster_contig_rows ..
  have srt: "sorted (map start ?dfc)" by (rule sorted_start_of_key)
  have wf': "\<forall>r \<in> set ?dfc. start r \<le> end' r" using wf by simp
  have len: "length ?dfc = length ?rows" by simp
  from m(1) have "m \<in> set (filter (\<lambda>x. contig x = ?c) ms)" by simp
  then obtain i where i: "i < length ?rows" "m = with_cluster (?dfc ! i) ?c (cid_at thr md ?c ?dfc i)"
    unfolding fr in_map_upt by (elim exE conjE)
  from m(2) eq(1) have "m' \<in> set (filter (\<lambda>x. contig x = ?c) ms)" by simp
  then obtain j where j: "j < length ?rows" "m' = with_cluster (?dfc ! j) ?c (cid_at thr md ?c ?dfc j)"
    unfolding fr in_map_upt by (elim exE conjE)
  have si: "start m = start (?dfc ! i)" "cluster_idx m = cid_at thr md ?c ?dfc i"
    by (subst i(2), simp add: with_cluster_def)+
  have sj: "start m' = start (?dfc ! j)" "cluster_idx m' = cid_at thr md ?c ?dfc j"
    by (subst j(2), simp add: with_cluster_def)+
  have "?dfc ! i \<in> set ?dfc" by (rule nth_mem) (simp only: len i(1))
  with wf' have wfi: "start (?dfc ! i) \<le> end' (?dfc ! i)" by (rule bspec)
  have "?dfc ! j \<in> set ?dfc" by (rule nth_mem) (simp only: len j(1))
  with wf' have wfj: "start (?dfc ! j) \<le> end' (?dfc ! j)" by (rule bspec)
  show ?thesis
  proof (cases "i \<le> j")
    case True
    have "bridged md ?dfc i j"
      by (rule equal_calls_bridged [OF srt True _ _ wfi md]) (use j len si sj eq in simp_all)
    then have "cid_at thr md ?c ?dfc i = cid_at thr md ?c ?dfc j"
      using same_cluster_iff_bridged [OF srt wf' md thr True, of ?c] j(1) len by simp
    then show ?thesis by (simp add: si sj)
  next
    case False
    then have ji: "j \<le> i" by simp
    have "bridged md ?dfc j i"
      by (rule equal_calls_bridged [OF srt ji _ _ wfj md]) (use i len si sj eq in simp_all)
    then have "cid_at thr md ?c ?dfc j = cid_at thr md ?c ?dfc i"
      using same_cluster_iff_bridged [OF srt wf' md thr ji, of ?c] i(1) len by simp
    then show ?thesis by (simp add: si sj)
  qed
qed

lemma member_is_call:
  assumes "m \<in> set (cluster_by_contig calls thr md)"
  shows "call_of m \<in> set calls"
proof -
  from assms have "call_of m \<in> set (map call_of (cluster_by_contig calls thr md))" by simp
  then have "call_of m \<in># mset (map call_of (cluster_by_contig calls thr md))" by simp
  then show ?thesis unfolding cluster_by_contig_calls by simp
qed

lemma parsed_ids_unique:
  fixes thr :: rat and md :: int and calls :: "call list"
  defines "ms \<equiv> cluster_by_contig calls thr md"
  assumes wf: "\<forall>r \<in> set calls. start r \<le> end' r" and md: "0 \<le> md" and thr: "0 < thr"
    and parsed: "\<forall>a \<in> set calls. \<forall>b \<in> set calls.
                   id_raw a = id_raw b \<longrightarrow> contig a = contig b \<and> start a = start b"
    and m: "m \<in> set ms"
  shows "\<forall>m' \<in> set ms. id_raw m' = id_raw m \<longrightarrow>
           contig m' = contig m \<and> cluster_idx m' = cluster_idx m"
proof (intro ballI impI)
  fix m' assume m': "m' \<in> set ms" and id: "id_raw m' = id_raw m"
  have "call_of m \<in> set calls" using m unfolding ms_def by (rule member_is_call)
  moreover have "call_of m' \<in> set calls" using m' unfolding ms_def by (rule member_is_call)
  moreover have "id_raw (call_of m') = id_raw (call_of m)" using id by (simp add: call_of_def)
  ultimately have "contig (call_of m') = contig (call_of m) \<and> start (call_of m') = start (call_of m)"
    using parsed by blast
  then have eq: "contig m' = contig m" "start m' = start m" by (simp_all add: call_of_def)
  have "cluster_idx m' = cluster_idx m"
    using wf md thr m m' eq unfolding ms_def by (rule equal_calls_same_cluster)
  with eq show "contig m' = contig m \<and> cluster_idx m' = cluster_idx m" by simp
qed





subsection \<open>Totality\<close>





end
